theory Spec2Isabelle
  imports Complex_Main
begin

section \<open>Time: dates, time deltas and zoned instants\<close>

text \<open>
  The scheduler works on the values of Python's \<^verbatim>\<open>datetime\<close> module. They are
  modelled on an integer time line:
  \<^item> a \<^verbatim>\<open>timedelta\<close> is its total number of microseconds;
  \<^item> a \<^verbatim>\<open>date\<close> is its proleptic Gregorian ordinal (\<^verbatim>\<open>date.toordinal()\<close>,
    day 1 is 0001-01-01, a Monday);
  \<^item> an aware \<^verbatim>\<open>datetime\<close> is its wall-clock reading, in microseconds since
    midnight of ordinal 0, together with the UTC offset of its fixed-offset
    \<^verbatim>\<open>tzinfo\<close>, in microseconds.
  Every field the scheduler reads (\<^verbatim>\<open>.date()\<close>, \<^verbatim>\<open>.minute\<close>, ...) is computed from
  the wall-clock reading. The time line is unbounded: the library raises
  \<^verbatim>\<open>OverflowError\<close> when an operation leaves the years 1 to 9999, and that error
  is not part of the model. What is proved about a value the model returns
  holds of the code whenever the code returns a value.
\<close>

type_synonym timedelta = int

type_synonym date = int

record datetime =
  naive :: int
  utcoffset :: int

type_synonym interval = "datetime \<times> datetime"

definition us_per_minute :: int where
  "us_per_minute = 60000000"

definition us_per_hour :: int where
  "us_per_hour = 3600000000"

definition us_per_day :: int where
  "us_per_day = 86400000000"

definition minutes :: "int \<Rightarrow> timedelta" where
  \<comment> \<open>\<^verbatim>\<open>timedelta(minutes=n)\<close>\<close>
  "minutes n = n * us_per_minute"

definition hours :: "int \<Rightarrow> timedelta" where
  \<comment> \<open>\<^verbatim>\<open>timedelta(hours=n)\<close>\<close>
  "hours n = n * us_per_hour"

definition utc :: "datetime \<Rightarrow> int" where
  \<comment> \<open>the instant denoted, on the UTC time line\<close>
  "utc dt = naive dt - utcoffset dt"

definition dt_lt :: "datetime \<Rightarrow> datetime \<Rightarrow> bool" where
  \<comment> \<open>\<^verbatim>\<open>a < b\<close> on aware datetimes compares the instants\<close>
  "dt_lt a b \<longleftrightarrow> utc a < utc b"

definition dt_le :: "datetime \<Rightarrow> datetime \<Rightarrow> bool" where
  "dt_le a b \<longleftrightarrow> utc a \<le> utc b"

definition py_max :: "datetime \<Rightarrow> datetime \<Rightarrow> datetime" where
  \<comment> \<open>\<^verbatim>\<open>max(a, b)\<close>: the first argument unless the second is greater\<close>
  "py_max a b = (if dt_lt a b then b else a)"

definition py_min :: "datetime \<Rightarrow> datetime \<Rightarrow> datetime" where
  \<comment> \<open>\<^verbatim>\<open>min(a, b)\<close>: the first argument unless the second is smaller\<close>
  "py_min a b = (if dt_lt b a then b else a)"

definition combine :: "date \<Rightarrow> int \<Rightarrow> int \<Rightarrow> int \<Rightarrow> datetime" where
  \<comment> \<open>\<^verbatim>\<open>datetime.combine(day, time(h, m, tzinfo=tz))\<close>\<close>
  "combine day h m tz = \<lparr>naive = day * us_per_day + hours h + minutes m, utcoffset = tz\<rparr>"

definition astimezone :: "datetime \<Rightarrow> int \<Rightarrow> datetime" where
  \<comment> \<open>\<^verbatim>\<open>dt.astimezone(tz)\<close>: the same instant read on the clock of \<open>tz\<close>\<close>
  "astimezone dt tz = \<lparr>naive = utc dt + tz, utcoffset = tz\<rparr>"

definition dt_add :: "datetime \<Rightarrow> timedelta \<Rightarrow> datetime" where
  \<comment> \<open>\<^verbatim>\<open>dt + td\<close>: wall-clock arithmetic, the zone is kept; the library's
      \<^verbatim>\<open>OverflowError\<close> outside the years 1 to 9999 is not modelled\<close>
  "dt_add dt td = dt\<lparr>naive := naive dt + td\<rparr>"

definition dt_sub :: "datetime \<Rightarrow> datetime \<Rightarrow> timedelta" where
  \<comment> \<open>\<^verbatim>\<open>a - b\<close> on aware datetimes\<close>
  "dt_sub a b = utc a - utc b"

definition dt_date :: "datetime \<Rightarrow> date" where
  \<comment> \<open>\<^verbatim>\<open>dt.date()\<close>: the local calendar day\<close>
  "dt_date dt = naive dt div us_per_day"

definition dt_hour :: "datetime \<Rightarrow> int" where
  "dt_hour dt = (naive dt div us_per_hour) mod 24"

definition dt_minute :: "datetime \<Rightarrow> int" where
  "dt_minute dt = (naive dt div us_per_minute) mod 60"

definition dt_second :: "datetime \<Rightarrow> int" where
  "dt_second dt = (naive dt div 1000000) mod 60"

definition dt_microsecond :: "datetime \<Rightarrow> int" where
  "dt_microsecond dt = naive dt mod 1000000"

definition replace_minute :: "datetime \<Rightarrow> int \<Rightarrow> datetime" where
  \<comment> \<open>\<^verbatim>\<open>dt.replace(minute=m, second=0, microsecond=0)\<close>: date and hour are kept\<close>
  "replace_minute dt m = dt\<lparr>naive := naive dt - naive dt mod us_per_hour + minutes m\<rparr>"

definition weekday :: "date \<Rightarrow> int" where
  \<comment> \<open>\<^verbatim>\<open>date.weekday()\<close>: Monday is 0\<close>
  "weekday d = (d + 6) mod 7"

definition td_half :: "timedelta \<Rightarrow> timedelta" where
  \<comment> \<open>\<^verbatim>\<open>td / 2\<close>: the quotient in microseconds, a half rounded to the even neighbour\<close>
  "td_half td = (let q = td div 2; r = td mod 2 in if r = 1 \<and> q mod 2 = 1 then q + 1 else q)"

section \<open>Events and the day availability resolver\<close>

record event =
  ev_begin :: datetime
  ev_end :: datetime

definition interval_set :: "interval \<Rightarrow> int set" where
  \<comment> \<open>the instants of the half-open interval \<open>[start, end)\<close>\<close>
  "interval_set iv = {utc (fst iv) ..< utc (snd iv)}"

definition covered :: "interval list \<Rightarrow> int set" where
  "covered ivs = (\<Union>iv \<in> set ivs. interval_set iv)"

definition work_start :: "date \<Rightarrow> int \<Rightarrow> datetime" where
  "work_start day tzinfo = combine day 9 0 tzinfo"

definition work_end :: "date \<Rightarrow> int \<Rightarrow> datetime" where
  "work_end day tzinfo = combine day 17 0 tzinfo"

definition clip_event :: "date \<Rightarrow> int \<Rightarrow> event \<Rightarrow> interval option" where
  \<comment> \<open>the body of the first loop of \<^verbatim>\<open>events_for_day\<close>\<close>
  "clip_event day tzinfo ev =
     (let event_start = astimezone (ev_begin ev) tzinfo;
          event_end = astimezone (ev_end ev) tzinfo
      in if dt_lt (work_start day tzinfo) event_end \<and> dt_lt event_start (work_end day tzinfo)
         then Some (py_max event_start (work_start day tzinfo),
                    py_min event_end (work_end day tzinfo))
         else None)"

definition merge_step :: "interval list \<Rightarrow> interval \<Rightarrow> interval list" where
  \<comment> \<open>the body of the merging loop; \<open>merged\<close> is the list built so far\<close>
  "merge_step merged iv =
     (if merged = [] then merged @ [iv]
      else (let last_start = fst (last merged); last_end = snd (last merged);
                current_start = fst iv; current_end = snd iv
            in if dt_le current_start last_end
               then butlast merged @ [(last_start, py_max last_end current_end)]
               else merged @ [iv]))"

definition events_for_day :: "event list \<Rightarrow> date \<Rightarrow> int \<Rightarrow> interval list" where
  "events_for_day events day tzinfo =
     (let day_events = List.map_filter (clip_event day tzinfo) events;
          day_events = sort_key (\<lambda>x. utc (fst x)) day_events
      in foldl merge_step [] day_events)"

definition gaps :: "interval list \<Rightarrow> interval list" where
  \<comment> \<open>the loop \<^verbatim>\<open>for i in range(len(busy)-1)\<close> of \<^verbatim>\<open>free_intervals_for_day\<close>\<close>
  "gaps busy =
     concat (map (\<lambda>i. if dt_lt (snd (busy ! i)) (fst (busy ! Suc i))
                         then [(snd (busy ! i), fst (busy ! Suc i))] else [])
                 [0 ..< length busy - 1])"

definition free_before_now :: "event list \<Rightarrow> date \<Rightarrow> int \<Rightarrow> interval list" where
  \<comment> \<open>the list \<open>free\<close> of \<^verbatim>\<open>free_intervals_for_day\<close> before the current instant is applied\<close>
  "free_before_now events day tzinfo =
     (let busy = events_for_day events day tzinfo
      in if busy = [] then [(work_start day tzinfo, work_end day tzinfo)]
         else (if dt_lt (work_start day tzinfo) (fst (hd busy))
               then [(work_start day tzinfo, fst (hd busy))] else [])
              @ gaps busy
              @ (if dt_lt (snd (last busy)) (work_end day tzinfo)
                 then [(snd (last busy), work_end day tzinfo)] else []))"

definition clip_now :: "datetime \<Rightarrow> interval \<Rightarrow> interval option" where
  \<comment> \<open>the body of the loop that cuts the free intervals of today at the current instant\<close>
  "clip_now current_dt iv =
     (let start = fst iv; end_dt = snd iv;
          start = (if dt_lt start current_dt then py_max start current_dt else start)
      in if dt_lt start end_dt then Some (start, end_dt) else None)"

definition free_intervals_for_day ::
    "event list \<Rightarrow> date \<Rightarrow> int \<Rightarrow> datetime option \<Rightarrow> interval list" where
  "free_intervals_for_day events day tzinfo current_dt =
     (let free = free_before_now events day tzinfo
      in case current_dt of
           None \<Rightarrow> free
         | Some now \<Rightarrow> if day = dt_date now then List.map_filter (clip_now now) free else free)"

section \<open>The slot ranking engine\<close>

type_synonym candidate = "rat \<times> datetime \<times> datetime"

definition round_minute :: "int \<Rightarrow> int" where
  \<comment> \<open>\<^verbatim>\<open>(m // 5) * 5\<close>, plus 5 when \<^verbatim>\<open>m % 5 >= 2.5\<close>; \<open>m\<close> is the integer minute field\<close>
  "round_minute m =
     (let rounded_minute = (m div 5) * 5
      in if (5 :: rat) / 2 \<le> of_int (m mod 5) then rounded_minute + 5 else rounded_minute)"

definition round_start :: "datetime \<Rightarrow> datetime" where
  \<comment> \<open>lines 78 to 84 of \<^verbatim>\<open>candidate_from_interval\<close>\<close>
  "round_start candidate_start =
     (let rounded_minute = round_minute (dt_minute candidate_start)
      in if 60 \<le> rounded_minute
         then replace_minute (dt_add candidate_start (hours 1)) 0
         else replace_minute candidate_start rounded_minute)"

definition candidate_from_interval :: "interval \<Rightarrow> timedelta \<Rightarrow> candidate option" where
  \<comment> \<open>the score \<^verbatim>\<open>slack.total_seconds() / 2\<close> is kept as an exact rational\<close>
  "candidate_from_interval iv meeting_td =
     (let start = fst iv; end_dt = snd iv;
          interval_td = dt_sub end_dt start
      in if interval_td < meeting_td then None
         else
           (let slack = interval_td - meeting_td;
                candidate_start = round_start (dt_add start (td_half slack));
                candidate_end = dt_add candidate_start meeting_td
            in if dt_lt candidate_start start \<or> dt_lt end_dt candidate_end then None
               else Some (of_int slack / 1000000 / 2, candidate_start, candidate_end)))"

fun infer_working_week :: "event list \<Rightarrow> datetime \<Rightarrow> date \<times> date" where
  \<comment> \<open>\<open>clock\<close> is the reading \<^verbatim>\<open>datetime.now().astimezone()\<close> of the empty-pool branch\<close>
  "infer_working_week [] clock =
     (let monday = dt_date clock - weekday (dt_date clock) in (monday, monday + 4))"
| "infer_working_week (e # es) clock =
     (let min_event_date = fold min (map (\<lambda>event. dt_date (ev_begin event)) es)
                             (dt_date (ev_begin e));
          monday = min_event_date - weekday min_event_date
      in (monday, monday + 4))"

definition get_scheduling_days :: "event list \<Rightarrow> datetime \<Rightarrow> datetime \<Rightarrow> date list" where
  "get_scheduling_days all_events current_dt clock =
     (let working_week_start = fst (infer_working_week all_events clock);
          working_week_end = snd (infer_working_week all_events clock)
      in if working_week_start \<le> dt_date current_dt \<and> dt_date current_dt \<le> working_week_end
         then (let days_count = (working_week_end - dt_date current_dt) + 1
               in map (\<lambda>i. dt_date current_dt + i) [0 .. days_count - 1])
         else map (\<lambda>i. working_week_start + i) [0 .. 5 - 1])"

definition day_candidates ::
    "event list \<Rightarrow> timedelta \<Rightarrow> datetime \<Rightarrow> date \<Rightarrow> candidate list" where
  \<comment> \<open>the body of the loop over the scheduling days\<close>
  "day_candidates all_events meeting_td current_dt day =
     (let free_intervals =
            free_intervals_for_day all_events day (utcoffset current_dt)
              (if day = dt_date current_dt then Some current_dt else None)
      in List.map_filter (\<lambda>iv. candidate_from_interval iv meeting_td) free_intervals)"

definition candidate_slots ::
    "event list \<Rightarrow> int \<Rightarrow> datetime \<Rightarrow> datetime \<Rightarrow> candidate list" where
  "candidate_slots all_events meeting_duration_minutes current_dt clock =
     concat (map (day_candidates all_events (minutes meeting_duration_minutes) current_dt)
                 (get_scheduling_days all_events current_dt clock))"

definition py_take :: "int \<Rightarrow> 'a list \<Rightarrow> 'a list" where
  \<comment> \<open>the slice \<^verbatim>\<open>xs[:n]\<close>; a negative \<open>n\<close> counts from the end\<close>
  "py_take n xs = (if 0 \<le> n then take (nat n) xs else take (length xs - nat (- n)) xs)"

definition best_slots ::
    "event list \<Rightarrow> int \<Rightarrow> int \<Rightarrow> datetime \<Rightarrow> datetime \<Rightarrow> candidate list" where
  \<comment> \<open>\<^verbatim>\<open>sort(key=score, reverse=True)\<close> is stable: equal scores keep their order\<close>
  "best_slots all_events meeting_duration_minutes max_slots current_dt clock =
     py_take max_slots
       (sort_key (\<lambda>x. - fst x)
          (candidate_slots all_events meeting_duration_minutes current_dt clock))"

section \<open>Calendar dates and slot descriptors\<close>

text \<open>
  Formatting and parsing go through the proleptic Gregorian calendar of the
  \<^verbatim>\<open>datetime\<close> library: \<^verbatim>\<open>_ymd2ord\<close> and \<^verbatim>\<open>_ord2ymd\<close>, with its tables
  \<^verbatim>\<open>_DAYS_IN_MONTH\<close> and \<^verbatim>\<open>_DAYS_BEFORE_MONTH\<close>. Strings are lists of 8-bit
  characters.
\<close>

datatype error = ValueError | ParseError

definition is_leap :: "int \<Rightarrow> bool" where
  "is_leap year \<longleftrightarrow> year mod 4 = 0 \<and> (year mod 100 \<noteq> 0 \<or> year mod 400 = 0)"

definition DAYS_IN_MONTH :: "int list" where
  "DAYS_IN_MONTH = [-1, 31, 28, 31, 30, 31, 30, 31, 31, 30, 31, 30, 31]"

definition DAYS_BEFORE_MONTH :: "int list" where
  "DAYS_BEFORE_MONTH = [-1, 0, 31, 59, 90, 120, 151, 181, 212, 243, 273, 304, 334]"

definition days_before_year :: "int \<Rightarrow> int" where
  "days_before_year year = (let y = year - 1 in y * 365 + y div 4 - y div 100 + y div 400)"

definition days_in_month :: "int \<Rightarrow> int \<Rightarrow> int" where
  "days_in_month year month =
     (if month = 2 \<and> is_leap year then 29 else DAYS_IN_MONTH ! nat month)"

definition days_before_month :: "int \<Rightarrow> int \<Rightarrow> int" where
  "days_before_month year month =
     DAYS_BEFORE_MONTH ! nat month + (if 2 < month \<and> is_leap year then 1 else 0)"

definition ymd2ord :: "int \<Rightarrow> int \<Rightarrow> int \<Rightarrow> date" where
  "ymd2ord year month day = days_before_year year + days_before_month year month + day"

definition DI400Y :: int where
  "DI400Y = 146097"

definition DI100Y :: int where
  "DI100Y = 36524"

definition DI4Y :: int where
  "DI4Y = 1461"

definition ord2ymd :: "date \<Rightarrow> int \<times> int \<times> int" where
  "ord2ymd ordinal =
     (let n = ordinal - 1;
          n400 = n div DI400Y; n = n mod DI400Y;
          year = n400 * 400 + 1;
          n100 = n div DI100Y; n = n mod DI100Y;
          n4 = n div DI4Y; n = n mod DI4Y;
          n1 = n div 365; n = n mod 365;
          year = year + n100 * 100 + n4 * 4 + n1
      in if n1 = 4 \<or> n100 = 4 then (year - 1, 12, 31)
         else
           (let leapyear = (n1 = 3 \<and> (n4 \<noteq> 24 \<or> n100 = 3));
                month = (n + 50) div 32;
                preceding = DAYS_BEFORE_MONTH ! nat month
                              + (if 2 < month \<and> leapyear then 1 else 0)
            in if n < preceding
               then (let month = month - 1;
                         preceding = preceding
                            - (DAYS_IN_MONTH ! nat month
                                 + (if month = 2 \<and> leapyear then 1 else 0))
                     in (year, month, n - preceding + 1))
               else (year, month, n - preceding + 1)))"

definition digit_char :: "int \<Rightarrow> char" where
  \<comment> \<open>the character of a decimal digit\<close>
  "digit_char d = char_of (48 + d)"

definition fmt2 :: "int \<Rightarrow> string" where
  \<comment> \<open>two digits, zero-padded: \<^verbatim>\<open>%m\<close>, \<^verbatim>\<open>%d\<close>, \<^verbatim>\<open>%H\<close>, \<^verbatim>\<open>%M\<close>\<close>
  "fmt2 n = [digit_char (n div 10 mod 10), digit_char (n mod 10)]"

definition fmt4 :: "int \<Rightarrow> string" where
  \<comment> \<open>four digits, zero-padded: the year field \<^verbatim>\<open>YYYY\<close> of a descriptor\<close>
  "fmt4 n = [digit_char (n div 1000 mod 10), digit_char (n div 100 mod 10),
             digit_char (n div 10 mod 10), digit_char (n mod 10)]"

definition fmt_year :: "int \<Rightarrow> string" where
  \<comment> \<open>\<^verbatim>\<open>%Y\<close> as \<^verbatim>\<open>strftime\<close> writes it on the platform of the bot (glibc): the
      decimal digits of the year without padding, so four digits from the year
      1000 on\<close>
  "fmt_year y =
     (if y < 10 then [digit_char (y mod 10)]
      else if y < 100 then fmt2 y
      else if y < 1000
           then [digit_char (y div 100 mod 10), digit_char (y div 10 mod 10), digit_char (y mod 10)]
           else fmt4 y)"

definition format_date :: "date \<Rightarrow> string" where
  \<comment> \<open>\<^verbatim>\<open>'%Y-%m-%d'\<close> of a calendar day\<close>
  "format_date day =
     (case ord2ymd day of (y, m, d) \<Rightarrow> fmt_year y @ ''-'' @ fmt2 m @ ''-'' @ fmt2 d)"

definition strftime_date :: "datetime \<Rightarrow> string" where
  \<comment> \<open>\<^verbatim>\<open>dt.strftime('%Y-%m-%d')\<close>\<close>
  "strftime_date dt = format_date (dt_date dt)"

definition strftime_hm :: "datetime \<Rightarrow> string" where
  \<comment> \<open>\<^verbatim>\<open>dt.strftime('%H:%M')\<close>\<close>
  "strftime_hm dt = fmt2 (dt_hour dt) @ '':'' @ fmt2 (dt_minute dt)"

definition format_slot :: "candidate \<Rightarrow> string" where
  "format_slot c =
     (case c of (score, start, end_dt) \<Rightarrow>
        strftime_date start @ '': '' @ strftime_hm start @ ''-'' @ strftime_hm end_dt)"

fun load_all :: "(string \<Rightarrow> error + event list) \<Rightarrow> string list \<Rightarrow> error + event list" where
  \<comment> \<open>the loading loop; \<open>Calendar\<close> is the parser of the \<^verbatim>\<open>ics\<close> library\<close>
  "load_all Calendar [] = Inr []"
| "load_all Calendar (ics_content # rest) =
     (case Calendar ics_content of
        Inl e \<Rightarrow> Inl e
      | Inr events \<Rightarrow>
          (case load_all Calendar rest of
             Inl e \<Rightarrow> Inl e
           | Inr all_events \<Rightarrow> Inr (events @ all_events)))"

definition find_best_meeting_slots ::
    "(string \<Rightarrow> error + event list) \<Rightarrow> string list \<Rightarrow> int \<Rightarrow> int \<Rightarrow> datetime \<Rightarrow> datetime
       \<Rightarrow> error + string list" where
  \<comment> \<open>\<open>current_dt\<close> is the clock reading of line 124, \<open>clock\<close> the later one of
      \<^verbatim>\<open>infer_working_week\<close>\<close>
  "find_best_meeting_slots Calendar ics_contents meeting_duration_minutes max_slots
       current_dt clock =
     (case load_all Calendar ics_contents of
        Inl e \<Rightarrow> Inl e
      | Inr all_events \<Rightarrow>
          Inr (map format_slot
                 (best_slots all_events meeting_duration_minutes max_slots current_dt clock)))"

subsection \<open>Parsing a descriptor\<close>

fun split_from :: "string \<Rightarrow> string \<Rightarrow> string \<Rightarrow> string list" where
  \<comment> \<open>\<^verbatim>\<open>s.split(sep)\<close> for a non-empty \<open>sep\<close>, scanning from the left;
      \<open>cur\<close> holds the current piece, reversed\<close>
  "split_from sep cur [] = [rev cur]"
| "split_from sep cur (c # cs) =
     (if sep \<noteq> [] \<and> take (length sep) (c # cs) = sep
      then rev cur # split_from sep [] (drop (length sep) (c # cs))
      else split_from sep (c # cur) cs)"

definition py_split :: "string \<Rightarrow> string \<Rightarrow> string list" where
  "py_split sep s = split_from sep [] s"

definition is_digit :: "char \<Rightarrow> bool" where
  "is_digit c \<longleftrightarrow> 48 \<le> (of_char c :: int) \<and> (of_char c :: int) \<le> 57"

definition is_space :: "char \<Rightarrow> bool" where
  \<comment> \<open>the class \<^verbatim>\<open>\s\<close> of a \<^verbatim>\<open>str\<close> pattern, below code point 256\<close>
  "is_space c \<longleftrightarrow> (of_char c :: int) \<in> {9, 10, 11, 12, 13, 28, 29, 30, 31, 32, 133, 160}"

definition digits_val :: "string \<Rightarrow> int" where
  \<comment> \<open>\<^verbatim>\<open>int(s)\<close> on a string of decimal digits\<close>
  "digits_val s = foldl (\<lambda>a c. 10 * a + (of_char c - 48)) 0 s"

definition field_ok :: "string \<Rightarrow> int \<Rightarrow> int \<Rightarrow> int \<Rightarrow> bool" where
  \<comment> \<open>a digit run matches a one- or two-digit directive: two digits with a value
      from \<open>lo2\<close> to \<open>hi\<close>, or one digit with a value from \<open>lo1\<close>\<close>
  "field_ok ds lo2 lo1 hi \<longleftrightarrow>
     (length ds = 2 \<and> lo2 \<le> digits_val ds \<and> digits_val ds \<le> hi)
     \<or> (length ds = 1 \<and> lo1 \<le> digits_val ds)"

definition expect :: "char \<Rightarrow> string \<Rightarrow> string option" where
  "expect c s = (case s of [] \<Rightarrow> None | x # xs \<Rightarrow> if x = c then Some xs else None)"

definition strptime :: "string \<Rightarrow> error + (int \<times> int \<times> int \<times> int \<times> int)" where
  \<comment> \<open>\<^verbatim>\<open>datetime.strptime(s, "%Y-%m-%d %H:%M")\<close>: year, month, day, hour, minute.
      The format compiles to the pattern
      \<^verbatim>\<open>(\d\d\d\d)-(1[0-2]|0[1-9]|[1-9])-(3[0-1]|[1-2]\d|0[1-9]|[1-9]| [1-9])\s+(2[0-3]|[0-1]\d|\d):([0-5]\d|\d)\<close>,
      which must match the whole string; every field is followed by a character
      that is no digit, so a field is the whole run of digits in front of it.\<close>
  "strptime s =
     (let ys = takeWhile is_digit s; s = dropWhile is_digit s
      in if length ys \<noteq> 4 then Inl ValueError
         else case expect CHR ''-'' s of None \<Rightarrow> Inl ValueError | Some s \<Rightarrow>
           (let ms = takeWhile is_digit s; s = dropWhile is_digit s
            in if \<not> field_ok ms 1 1 12 then Inl ValueError
               else case expect CHR ''-'' s of None \<Rightarrow> Inl ValueError | Some s \<Rightarrow>
                 (let ds = (case s of [] \<Rightarrow> []
                              | c # cs \<Rightarrow> if c = CHR '' '' then take 1 cs else takeWhile is_digit s);
                      s = (case s of [] \<Rightarrow> []
                              | c # cs \<Rightarrow> if c = CHR '' '' then drop 1 cs else dropWhile is_digit s)
                  in if \<not> (list_all is_digit ds \<and> field_ok ds 1 1 31) then Inl ValueError
                     else
                       (let ws = takeWhile is_space s; s = dropWhile is_space s
                        in if ws = [] then Inl ValueError
                           else
                             (let hs = takeWhile is_digit s; s = dropWhile is_digit s
                              in if \<not> field_ok hs 0 0 23 then Inl ValueError
                                 else case expect CHR '':'' s of None \<Rightarrow> Inl ValueError | Some s \<Rightarrow>
                                   (let mins = takeWhile is_digit s; s = dropWhile is_digit s
                                    in if \<not> field_ok mins 0 0 59 \<or> s \<noteq> [] then Inl ValueError
                                       else
                                         (let year = digits_val ys; month = digits_val ms;
                                              day = digits_val ds
                                          in if year < 1 \<or> days_in_month year month < day
                                             then Inl ValueError
                                             else Inr (year, month, day,
                                                       digits_val hs, digits_val mins))))))))"

definition mk_datetime :: "int \<times> int \<times> int \<times> int \<times> int \<Rightarrow> int \<Rightarrow> datetime" where
  \<comment> \<open>the naive \<^verbatim>\<open>datetime(year, month, day, hour, minute)\<close> with \<^verbatim>\<open>.replace(tzinfo=tz)\<close>\<close>
  "mk_datetime f tz =
     (case f of (year, month, day, hour, minute) \<Rightarrow>
        \<lparr>naive = ymd2ord year month day * us_per_day + hours hour + minutes minute,
         utcoffset = tz\<rparr>)"

definition parse_selected_time :: "int \<Rightarrow> string \<Rightarrow> error + (datetime \<times> datetime)" where
  \<comment> \<open>\<open>SGT\<close> is the UTC offset that the zone object \<^verbatim>\<open>SGT\<close> of the module gives a
      datetime it is attached to with \<^verbatim>\<open>replace\<close>. Unpacking a split into other
      than two pieces is a \<^verbatim>\<open>ValueError\<close>.\<close>
  "parse_selected_time SGT selected_time =
     (case py_split '': '' selected_time of
        [date_str, time_range] \<Rightarrow>
          (case py_split ''-'' time_range of
             [start_time_str, end_time_str] \<Rightarrow>
               (case strptime (date_str @ '' '' @ start_time_str) of
                  Inl e \<Rightarrow> Inl e
                | Inr start_fields \<Rightarrow>
                    (case strptime (date_str @ '' '' @ end_time_str) of
                       Inl e \<Rightarrow> Inl e
                     | Inr end_fields \<Rightarrow>
                         Inr (mk_datetime start_fields SGT, mk_datetime end_fields SGT)))
           | _ \<Rightarrow> Inl ValueError)
      | _ \<Rightarrow> Inl ValueError)"

definition SGT_utcoffset :: int where
  \<comment> \<open>the offset of the module constant \<^verbatim>\<open>SGT = pytz.timezone("Asia/Singapore")\<close>
      on a datetime it is attached to with \<^verbatim>\<open>replace(tzinfo=SGT)\<close>: a \<^verbatim>\<open>pytz\<close> zone
      that has not localized the datetime reports the first entry of its table,
      local mean time, six hours and 55 minutes east of UTC, not the +08:00 of
      Singapore time\<close>
  "SGT_utcoffset = hours 6 + minutes 55"

section \<open>Invariants used in the proofs\<close>

definition merge_inv :: "interval list \<Rightarrow> bool" where
  \<comment> \<open>the invariant of the merging loop: starts ascend, and every interval ends
      strictly before each later one starts\<close>
  "merge_inv acc \<longleftrightarrow>
     sorted (map (\<lambda>iv. utc (fst iv)) acc) \<and> sorted_wrt (\<lambda>a b. utc (snd a) < utc (fst b)) acc"

definition inside :: "int \<Rightarrow> int \<Rightarrow> interval \<Rightarrow> bool" where
  "inside lo hi iv \<longleftrightarrow> lo \<le> utc (fst iv) \<and> utc (fst iv) \<le> utc (snd iv) \<and> utc (snd iv) \<le> hi"

definition separated :: "interval list \<Rightarrow> bool" where
  "separated ivs = sorted_wrt (\<lambda>a b. utc (snd a) < utc (fst b)) ivs"

definition on_day :: "date \<Rightarrow> int \<Rightarrow> datetime \<Rightarrow> bool" where
  "on_day day tz p \<longleftrightarrow>
     utcoffset p = tz \<and> utc (work_start day tz) \<le> utc p \<and> utc p \<le> utc (work_end day tz)"

definition ends_on_day :: "date \<Rightarrow> int \<Rightarrow> interval \<Rightarrow> bool" where
  "ends_on_day day tz iv \<longleftrightarrow> on_day day tz (fst iv) \<and> on_day day tz (snd iv)"

section \<open>Sample inputs\<close>

definition sample_day :: date where
  \<comment> \<open>Monday 2024-01-01\<close>
  "sample_day = 738886"

definition sample_pool :: "event list" where
  \<comment> \<open>three events of that Monday, in UTC: 10:00 to 11:00, 08:00 to 10:00, 16:00 to 18:00\<close>
  "sample_pool =
     [\<lparr>ev_begin = combine sample_day 10 0 0, ev_end = combine sample_day 11 0 0\<rparr>,
      \<lparr>ev_begin = combine sample_day 8 0 0, ev_end = combine sample_day 10 0 0\<rparr>,
      \<lparr>ev_begin = combine sample_day 16 0 0, ev_end = combine sample_day 18 0 0\<rparr>]"

definition sample_early :: event where
  \<comment> \<open>an event that ends when the working window opens\<close>
  "sample_early = \<lparr>ev_begin = combine sample_day 8 0 0, ev_end = combine sample_day 9 0 0\<rparr>"

definition sample_thursday :: datetime where
  \<comment> \<open>Thursday 2024-01-04, 10:00 UTC\<close>
  "sample_thursday = combine (sample_day + 3) 10 0 0"


section \<open>Auxiliary facts\<close>

lemma covered_Nil: "covered [] = {}"
  by (simp add: covered_def)

lemma covered_append: "covered (xs @ ys) = covered xs \<union> covered ys"
  by (auto simp: covered_def)

lemma covered_Cons: "covered (x # xs) = interval_set x \<union> covered xs"
  by (auto simp: covered_def)

lemma utc_py_max: "utc (py_max a b) = max (utc a) (utc b)"
  by (simp add: py_max_def dt_lt_def max_def)

lemma utc_py_min: "utc (py_min a b) = min (utc a) (utc b)"
  by (simp add: py_min_def dt_lt_def min_def)

lemma utc_astimezone: "utc (astimezone dt tz) = utc dt"
  by (simp add: astimezone_def utc_def)

lemma merge_step_Nil: "merge_step [] iv = [iv]"
  by (simp add: merge_step_def)

lemma merge_step_snoc:
  "merge_step (ys @ [l]) iv =
     (if utc (fst iv) \<le> utc (snd l) then ys @ [(fst l, py_max (snd l) (snd iv))]
      else ys @ [l, iv])"
  by (simp add: merge_step_def dt_le_def Let_def)

lemma set_map_filter: "set (List.map_filter f xs) = {y. \<exists>x \<in> set xs. f x = Some y}"
  by (induction xs) (auto simp: List.map_filter_simps split: option.splits)

lemma utc_dt_add: "utc (dt_add dt td) = utc dt + td"
  by (simp add: dt_add_def utc_def)

lemma candidate_from_interval_duration:
  "candidate_from_interval iv meeting_td = Some (score, s, e) \<Longrightarrow> dt_sub e s = meeting_td"
  by (auto simp: candidate_from_interval_def Let_def dt_sub_def utc_dt_add split: if_splits)

lemma set_py_take: "set (py_take n xs) \<subseteq> set xs"
  by (auto simp: py_take_def dest: in_set_takeD)

lemma best_slots_from_interval:
  assumes "c \<in> set (best_slots all_events n max_slots current_dt clock)"
  shows "\<exists>iv. candidate_from_interval iv (minutes n) = Some c"
proof -
  have "c \<in> set (candidate_slots all_events n current_dt clock)"
    using assms set_py_take by (fastforce simp: best_slots_def)
  then show ?thesis
    by (auto simp: candidate_slots_def day_candidates_def Let_def set_map_filter)
qed

lemma map_add_upto: "map (\<lambda>i. a + i) [0 .. k] = [a .. a + k]"
proof (cases "0 \<le> k")
  case True
  then show ?thesis
  proof (induction k rule: int_ge_induct)
    case base
    show ?case by simp
  next
    case (step i)
    have "[0 .. i + 1] = [0 .. i] @ [i + 1]" using step.hyps by (simp add: upto_rec2)
    moreover have "[a .. a + (i + 1)] = [a .. a + i] @ [a + i + 1]"
      using step.hyps upto_rec2 [of a "a + i + 1"] by (simp add: add.assoc)
    ultimately show ?case using step.IH by simp
  qed
next
  case False
  then show ?thesis by simp
qed

lemma div_mod_decomp:
  fixes a c r :: int
  assumes "0 \<le> r" "r < c"
  shows "(a * c + r) div c = a" and "(a * c + r) mod c = r"
  using assms by (simp_all add: div_pos_pos_trivial)

lemma split_day:
  assumes "0 \<le> h" "h < 24" "0 \<le> m" "m < 60"
  shows "(day * us_per_day + hours h + minutes m) div us_per_day = day"
    and "(day * us_per_day + hours h + minutes m) div us_per_hour mod 24 = h"
    and "(day * us_per_day + hours h + minutes m) mod us_per_hour = minutes m"
    and "(day * us_per_day + hours h + minutes m) div us_per_minute mod 60 = m"
    and "(day * us_per_day + hours h + minutes m) mod us_per_minute = 0"
proof -
  define x where "x = day * us_per_day + hours h + minutes m"
  have r: "0 \<le> h * 3600000000 + m * 60000000" "h * 3600000000 + m * 60000000 < 86400000000"
    using assms by linarith+
  have m: "0 \<le> m * 60000000" "m * 60000000 < 3600000000" using assms by linarith+
  have z: "(0::int) \<le> 0" "(0::int) < 60000000" by simp_all
  have xd: "x = day * 86400000000 + (h * 3600000000 + m * 60000000)"
    by (simp add: x_def us_per_day_def hours_def minutes_def us_per_hour_def us_per_minute_def)
  have xh: "x = (day * 24 + h) * 3600000000 + m * 60000000"
    by (simp add: xd algebra_simps)
  have xm: "x = ((day * 24 + h) * 60 + m) * 60000000 + 0"
    by (simp add: xd algebra_simps)
  have 1: "x div 86400000000 = day"
    by (subst xd) (rule div_mod_decomp(1) [OF r])
  have 2: "x div 3600000000 = day * 24 + h"
    by (subst xh) (rule div_mod_decomp(1) [OF m])
  have 3: "x mod 3600000000 = m * 60000000"
    by (subst xh) (rule div_mod_decomp(2) [OF m])
  have 4: "x div 60000000 = (day * 24 + h) * 60 + m"
    by (subst xm) (rule div_mod_decomp(1) [OF z])
  have 5: "x mod 60000000 = 0"
    by (subst xm) (rule div_mod_decomp(2) [OF z])
  have 6: "(day * 24 + h) mod 24 = h"
    by (rule div_mod_decomp(2) [OF assms(1,2)])
  have 7: "((day * 24 + h) * 60 + m) mod 60 = m"
    by (rule div_mod_decomp(2) [OF assms(3,4)])
  show "(day * us_per_day + hours h + minutes m) div us_per_day = day"
    using 1 unfolding x_def us_per_day_def .
  show "(day * us_per_day + hours h + minutes m) div us_per_hour mod 24 = h"
    using 6 unfolding 2 [symmetric] x_def us_per_hour_def .
  show "(day * us_per_day + hours h + minutes m) mod us_per_hour = minutes m"
    using 3 unfolding x_def us_per_hour_def minutes_def [of m] us_per_minute_def .
  show "(day * us_per_day + hours h + minutes m) div us_per_minute mod 60 = m"
    using 7 unfolding 4 [symmetric] x_def us_per_minute_def .
  show "(day * us_per_day + hours h + minutes m) mod us_per_minute = 0"
    using 5 unfolding x_def us_per_minute_def .
qed

lemma combine_fields:
  assumes "0 \<le> h" "h < 24" "0 \<le> m" "m < 60"
  shows "dt_date (combine day h m tz) = day"
    and "dt_hour (combine day h m tz) = h"
    and "dt_minute (combine day h m tz) = m"
    and "naive (combine day h m tz) mod us_per_hour = minutes m"
  using split_day [OF assms, of day]
  by (simp_all add: dt_date_def dt_hour_def dt_minute_def combine_def)

section \<open>Formatting and parsing digits\<close>

lemma of_char_digit_char:
  assumes "0 \<le> d" "d \<le> 9"
  shows "(of_char (digit_char d) :: int) = 48 + d"
proof -
  have "(48 + d) mod 256 = 48 + d" using assms by simp
  then show ?thesis by (simp add: digit_char_def)
qed

lemma is_digit_digit_char: "0 \<le> d \<Longrightarrow> d \<le> 9 \<Longrightarrow> is_digit (digit_char d)"
  by (simp add: is_digit_def of_char_digit_char)

lemma is_digit_not_sep:
  assumes "is_digit c"
  shows "c \<noteq> CHR ''-''" "c \<noteq> CHR '':''" "c \<noteq> CHR '' ''" "\<not> is_space c"
  using assms by (auto simp: is_digit_def is_space_def)

lemma sep_not_digit:
  "\<not> is_digit CHR ''-''" "\<not> is_digit CHR '':''" "\<not> is_digit CHR '' ''" "is_space CHR '' ''"
  by (simp_all add: is_digit_def is_space_def)


lemma digits_val_2: "digits_val [a, b] = 10 * (of_char a - 48) + (of_char b - 48)"
  by (simp add: digits_val_def)

lemma digits_val_4:
  "digits_val [a, b, c, d] =
     10 * (10 * (10 * (of_char a - 48) + (of_char b - 48)) + (of_char c - 48))
       + (of_char d - 48)"
  by (simp add: digits_val_def)

lemma int_of_digit_char:
  assumes "0 \<le> d" "d \<le> 9"
  shows "of_char (digit_char d) - 48 = d"
  using of_char_digit_char [OF assms] assms by simp

lemma digit_bounds: "0 \<le> (n::int) mod 10" "(n::int) mod 10 \<le> 9"
  by simp_all

lemma digits_val_fmt2:
  assumes "0 \<le> n" "n \<le> 99"
  shows "digits_val (fmt2 n) = n"
proof -
  have "digits_val (fmt2 n) = 10 * (n div 10 mod 10) + n mod 10"
    unfolding fmt2_def digits_val_2
    by (simp only: int_of_digit_char [OF digit_bounds])
  moreover have "n div 10 mod 10 = n div 10" using assms by simp
  ultimately show ?thesis by simp
qed

lemma digits_val_fmt4:
  assumes "0 \<le> n" "n \<le> 9999"
  shows "digits_val (fmt4 n) = n"
proof -
  define a where "a = n div 10"
  define b where "b = a div 10"
  define c where "c = b div 10"
  have b100: "n div 100 = b"
    using zdiv_zmult2_eq [of 10 n 10] by (simp add: a_def b_def)
  have c1000: "n div 1000 = c"
    using zdiv_zmult2_eq [of 10 "n div 10" 10] zdiv_zmult2_eq [of 100 n 10]
    by (simp add: a_def b_def c_def b100 [unfolded a_def b_def, symmetric])
  have c9: "c mod 10 = c"
    using assms c1000 by simp
  have n: "n = 10 * a + n mod 10" by (simp add: a_def)
  have a: "a = 10 * b + a mod 10" by (simp add: b_def)
  have b: "b = 10 * c + b mod 10" by (simp add: c_def)
  have "digits_val (fmt4 n) =
      10 * (10 * (10 * (n div 1000 mod 10) + n div 100 mod 10) + n div 10 mod 10) + n mod 10"
    unfolding fmt4_def digits_val_4
    by (simp only: int_of_digit_char [OF digit_bounds])
  also have "\<dots> = 10 * (10 * (10 * c + b mod 10) + a mod 10) + n mod 10"
    by (simp only: c1000 b100 c9 a_def [symmetric])
  also have "\<dots> = n"
  proof -
    define r0 r1 r2 where "r0 = n mod 10" and "r1 = a mod 10" and "r2 = b mod 10"
    have "n = 10 * a + r0" "a = 10 * b + r1" "b = 10 * c + r2"
      using n a b by (simp_all only: r0_def r1_def r2_def)
    then have "10 * (10 * (10 * c + r2) + r1) + r0 = n" by (simp only:) 
    then show ?thesis by (simp only: r0_def r1_def r2_def)
  qed
  finally show ?thesis .
qed


lemma field_ok_2:
  "field_ok [a, b] lo2 lo1 hi \<longleftrightarrow> lo2 \<le> digits_val [a, b] \<and> digits_val [a, b] \<le> hi"
  by (simp add: field_ok_def)

lemma strptime_canonical:
  assumes "is_digit y1" "is_digit y2" "is_digit y3" "is_digit y4"
    and "is_digit m1" "is_digit m2" "is_digit d1" "is_digit d2"
    and "is_digit h1" "is_digit h2" "is_digit n1" "is_digit n2"
    and "1 \<le> digits_val [m1, m2]" "digits_val [m1, m2] \<le> 12"
    and "1 \<le> digits_val [d1, d2]" "digits_val [d1, d2] \<le> 31"
    and "0 \<le> digits_val [h1, h2]" "digits_val [h1, h2] \<le> 23"
    and "0 \<le> digits_val [n1, n2]" "digits_val [n1, n2] \<le> 59"
    and "1 \<le> digits_val [y1, y2, y3, y4]"
    and "digits_val [d1, d2] \<le> days_in_month (digits_val [y1, y2, y3, y4]) (digits_val [m1, m2])"
  shows "strptime ([y1, y2, y3, y4, CHR ''-'', m1, m2, CHR ''-'', d1, d2] @ '' '' @ [h1, h2, CHR '':'', n1, n2])
    = Inr (digits_val [y1, y2, y3, y4], digits_val [m1, m2], digits_val [d1, d2],
           digits_val [h1, h2], digits_val [n1, n2])"
  using assms
  by (simp add: strptime_def Let_def expect_def field_ok_2 sep_not_digit is_digit_not_sep)

lemma split_descriptor:
  assumes "is_digit y1" "is_digit y2" "is_digit y3" "is_digit y4"
    and "is_digit m1" "is_digit m2" "is_digit d1" "is_digit d2"
    and "is_digit h1" "is_digit h2" "is_digit n1" "is_digit n2"
    and "is_digit h3" "is_digit h4" "is_digit n3" "is_digit n4"
  shows "py_split '': '' ([y1, y2, y3, y4, CHR ''-'', m1, m2, CHR ''-'', d1, d2] @ '': ''
            @ [h1, h2, CHR '':'', n1, n2] @ ''-'' @ [h3, h4, CHR '':'', n3, n4])
       = [[y1, y2, y3, y4, CHR ''-'', m1, m2, CHR ''-'', d1, d2],
          [h1, h2, CHR '':'', n1, n2] @ ''-'' @ [h3, h4, CHR '':'', n3, n4]]"
    and "py_split ''-'' ([h1, h2, CHR '':'', n1, n2] @ ''-'' @ [h3, h4, CHR '':'', n3, n4])
       = [[h1, h2, CHR '':'', n1, n2], [h3, h4, CHR '':'', n3, n4]]"
  using assms by (simp_all add: py_split_def is_digit_not_sep)

lemma days_in_month_le_31:
  assumes "1 \<le> mo" "mo \<le> 12"
  shows "days_in_month y mo \<le> 31"
proof -
  have "mo = 1 \<or> mo = 2 \<or> mo = 3 \<or> mo = 4 \<or> mo = 5 \<or> mo = 6 \<or> mo = 7 \<or> mo = 8
      \<or> mo = 9 \<or> mo = 10 \<or> mo = 11 \<or> mo = 12"
    using assms by arith
  then show ?thesis
    by (auto simp: days_in_month_def DAYS_IN_MONTH_def)
qed

lemma fmt2_chars:
  "fmt2 n = [digit_char (n div 10 mod 10), digit_char (n mod 10)]"
  "is_digit (digit_char (n div 10 mod 10))" "is_digit (digit_char (n mod 10))"
  by (simp_all add: fmt2_def is_digit_digit_char)

lemma fmt4_chars:
  "fmt4 n = [digit_char (n div 1000 mod 10), digit_char (n div 100 mod 10),
             digit_char (n div 10 mod 10), digit_char (n mod 10)]"
  "is_digit (digit_char (n div 1000 mod 10))" "is_digit (digit_char (n div 100 mod 10))"
  by (simp_all add: fmt4_def is_digit_digit_char)

lemma fmt2_obtain:
  obtains a b where "fmt2 n = [a, b]" "is_digit a" "is_digit b"
  using fmt2_chars [of n] by blast

lemma fmt4_obtain:
  obtains a b c d where "fmt4 n = [a, b, c, d]" "is_digit a" "is_digit b" "is_digit c" "is_digit d"
  using fmt4_chars [of n] fmt2_chars(2,3) [of n] by blast

lemma strptime_formatted:
  assumes "1 \<le> y" "y \<le> 9999" "1 \<le> mo" "mo \<le> 12" "1 \<le> d" "d \<le> days_in_month y mo"
    and "0 \<le> h" "h \<le> 23" "0 \<le> mi" "mi \<le> 59"
  shows "strptime ((fmt4 y @ ''-'' @ fmt2 mo @ ''-'' @ fmt2 d) @ '' '' @ (fmt2 h @ '':'' @ fmt2 mi))
    = Inr (y, mo, d, h, mi)"
proof -
  have d31: "d \<le> 31" using assms days_in_month_le_31 [of mo y] by linarith
  obtain y1 y2 y3 y4 where fy: "fmt4 y = [y1, y2, y3, y4]"
    and dy: "is_digit y1" "is_digit y2" "is_digit y3" "is_digit y4"
    by (rule fmt4_obtain)
  obtain a1 a2 where fm: "fmt2 mo = [a1, a2]" and dm: "is_digit a1" "is_digit a2"
    by (rule fmt2_obtain)
  obtain d1 d2 where fd: "fmt2 d = [d1, d2]" and dd: "is_digit d1" "is_digit d2"
    by (rule fmt2_obtain)
  obtain h1 h2 where fh: "fmt2 h = [h1, h2]" and dh: "is_digit h1" "is_digit h2"
    by (rule fmt2_obtain)
  obtain n1 n2 where fn: "fmt2 mi = [n1, n2]" and dn: "is_digit n1" "is_digit n2"
    by (rule fmt2_obtain)
  have vy: "digits_val [y1, y2, y3, y4] = y"
    unfolding fy [symmetric] by (rule digits_val_fmt4) (use assms in simp_all)
  have vm: "digits_val [a1, a2] = mo"
    unfolding fm [symmetric] by (rule digits_val_fmt2) (use assms in simp_all)
  have vd: "digits_val [d1, d2] = d"
    unfolding fd [symmetric] by (rule digits_val_fmt2) (use assms d31 in simp_all)
  have vh: "digits_val [h1, h2] = h"
    unfolding fh [symmetric] by (rule digits_val_fmt2) (use assms in simp_all)
  have vn: "digits_val [n1, n2] = mi"
    unfolding fn [symmetric] by (rule digits_val_fmt2) (use assms in simp_all)
  have "strptime ([y1, y2, y3, y4, CHR ''-'', a1, a2, CHR ''-'', d1, d2] @ '' ''
            @ [h1, h2, CHR '':'', n1, n2])
     = Inr (digits_val [y1, y2, y3, y4], digits_val [a1, a2], digits_val [d1, d2],
            digits_val [h1, h2], digits_val [n1, n2])"
    by (rule strptime_canonical)
       (simp_all only: dy dm dd dh dn vy vm vd vh vn assms d31)
  then show ?thesis
    by (simp add: fy fm fd fh fn vy vm vd vh vn)
qed

lemma split_formatted:
  "py_split '': '' ((fmt4 y @ ''-'' @ fmt2 mo @ ''-'' @ fmt2 d) @ '': ''
        @ (fmt2 h1 @ '':'' @ fmt2 m1) @ ''-'' @ (fmt2 h2 @ '':'' @ fmt2 m2))
     = [fmt4 y @ ''-'' @ fmt2 mo @ ''-'' @ fmt2 d,
        (fmt2 h1 @ '':'' @ fmt2 m1) @ ''-'' @ (fmt2 h2 @ '':'' @ fmt2 m2)]"
  "py_split ''-'' ((fmt2 h1 @ '':'' @ fmt2 m1) @ ''-'' @ (fmt2 h2 @ '':'' @ fmt2 m2))
     = [fmt2 h1 @ '':'' @ fmt2 m1, fmt2 h2 @ '':'' @ fmt2 m2]"
  using split_descriptor [of "digit_char (y div 1000 mod 10)" "digit_char (y div 100 mod 10)"
      "digit_char (y div 10 mod 10)" "digit_char (y mod 10)"
      "digit_char (mo div 10 mod 10)" "digit_char (mo mod 10)"
      "digit_char (d div 10 mod 10)" "digit_char (d mod 10)"
      "digit_char (h1 div 10 mod 10)" "digit_char (h1 mod 10)"
      "digit_char (m1 div 10 mod 10)" "digit_char (m1 mod 10)"
      "digit_char (h2 div 10 mod 10)" "digit_char (h2 mod 10)"
      "digit_char (m2 div 10 mod 10)" "digit_char (m2 mod 10)"]
  by (simp_all add: fmt2_chars fmt4_chars)

lemma parse_formatted:
  assumes "1 \<le> y" "y \<le> 9999" "1 \<le> mo" "mo \<le> 12" "1 \<le> d" "d \<le> days_in_month y mo"
    and "0 \<le> h1" "h1 \<le> 23" "0 \<le> m1" "m1 \<le> 59"
    and "0 \<le> h2" "h2 \<le> 23" "0 \<le> m2" "m2 \<le> 59"
  shows "parse_selected_time SGT
           ((fmt4 y @ ''-'' @ fmt2 mo @ ''-'' @ fmt2 d) @ '': ''
              @ (fmt2 h1 @ '':'' @ fmt2 m1) @ ''-'' @ (fmt2 h2 @ '':'' @ fmt2 m2))
         = Inr (mk_datetime (y, mo, d, h1, m1) SGT, mk_datetime (y, mo, d, h2, m2) SGT)"
  by (simp only: parse_selected_time_def split_formatted list.case sum.case
        strptime_formatted [OF assms(1-10)] strptime_formatted [OF assms(1-6) assms(11-14)])

section \<open>The calendar: ordinals and dates\<close>

lemma month_of_offset:
  fixes n :: int and leap :: bool
  assumes "0 \<le> n" "n < 365"
  defines "month \<equiv> (n + 50) div 32"
  defines "preceding \<equiv> DAYS_BEFORE_MONTH ! nat month + (if 2 < month \<and> leap then 1 else 0)"
  defines "res \<equiv> (if n < preceding
               then (month - 1, n - (preceding - (DAYS_IN_MONTH ! nat (month - 1)
                                    + (if month - 1 = 2 \<and> leap then 1 else 0))) + 1)
               else (month, n - preceding + 1))"
  shows "1 \<le> fst res \<and> fst res \<le> 12 \<and> 1 \<le> snd res \<and>
         snd res \<le> (if fst res = 2 \<and> leap then 29 else DAYS_IN_MONTH ! nat (fst res)) \<and>
         DAYS_BEFORE_MONTH ! nat (fst res) + (if 2 < fst res \<and> leap then 1 else 0) + snd res = n + 1"
proof -
  have k: "32 * month \<le> n + 50" "n + 50 < 32 * month + 32"
    unfolding month_def by linarith+
  have "1 \<le> month" "month \<le> 12" using k assms(1,2) by linarith+
  then have "month = 1 \<or> month = 2 \<or> month = 3 \<or> month = 4 \<or> month = 5 \<or> month = 6 \<or>
      month = 7 \<or> month = 8 \<or> month = 9 \<or> month = 10 \<or> month = 11 \<or> month = 12"
    by arith
  then show ?thesis
    using k assms(1,2) unfolding res_def preceding_def
    by (elim disjE) (simp_all add: DAYS_BEFORE_MONTH_def DAYS_IN_MONTH_def)
qed

lemma year_divs:
  fixes q a b c :: int
  assumes "0 \<le> a" "a \<le> 3" "0 \<le> b" "b \<le> 24" "0 \<le> c" "c \<le> 3"
  defines "t \<equiv> 400 * q + 100 * a + 4 * b + c"
  shows "t div 4 = 100 * q + 25 * a + b" and "t div 100 = 4 * q + a" and "t div 400 = q"
proof -
  have 1: "t = (100 * q + 25 * a + b) * 4 + c" by (simp add: t_def)
  have 2: "t = (4 * q + a) * 100 + (4 * b + c)" by (simp add: t_def)
  have 3: "t = q * 400 + (100 * a + 4 * b + c)" by (simp add: t_def)
  have c4: "c < 4" using assms by simp
  have r2: "0 \<le> 4 * b + c" "4 * b + c < 100" using assms by linarith+
  have r3: "0 \<le> 100 * a + 4 * b + c" "100 * a + 4 * b + c < 400" using assms by linarith+
  show "t div 4 = 100 * q + 25 * a + b"
    by (subst 1) (rule div_mod_decomp(1) [OF assms(5) c4])
  show "t div 100 = 4 * q + a"
    by (subst 2) (rule div_mod_decomp(1) [OF r2])
  show "t div 400 = q"
    by (subst 3) (rule div_mod_decomp(1) [OF r3])
qed

lemma days_before_year_decomp:
  fixes q a b c :: int
  assumes "0 \<le> a" "a \<le> 3" "0 \<le> b" "b \<le> 24" "0 \<le> c" "c \<le> 3"
  shows "days_before_year (400 * q + 100 * a + 4 * b + c + 1)
       = 146097 * q + 36524 * a + 1461 * b + 365 * c"
  using year_divs [OF assms, of q]
  by (simp add: days_before_year_def Let_def)

lemma is_leap_decomp:
  fixes q a b c :: int
  assumes "0 \<le> a" "a \<le> 3" "0 \<le> b" "b \<le> 24" "0 \<le> c" "c \<le> 3"
  shows "is_leap (400 * q + 100 * a + 4 * b + c + 1) \<longleftrightarrow> c = 3 \<and> (b \<noteq> 24 \<or> a = 3)"
proof -
  let ?y = "400 * q + 100 * a + 4 * b + c + 1"
  have m4: "?y mod 4 = (c + 1) mod 4"
  proof -
    have "?y = (c + 1) + (100 * q + 25 * a + b) * 4" by simp
    then show ?thesis by (simp only: mod_mult_self1)
  qed
  have m100: "?y mod 100 = (4 * b + c + 1) mod 100"
  proof -
    have "?y = (4 * b + c + 1) + (4 * q + a) * 100" by simp
    then show ?thesis by (simp only: mod_mult_self1)
  qed
  have m400: "?y mod 400 = (100 * a + 4 * b + c + 1) mod 400"
  proof -
    have "?y = (100 * a + 4 * b + c + 1) + q * 400" by simp
    then show ?thesis by (simp only: mod_mult_self1)
  qed
  have a: "(c + 1) mod 4 = 0 \<longleftrightarrow> c = 3" using assms by presburger
  have b: "c = 3 \<Longrightarrow> (4 * b + c + 1) mod 100 = 0 \<longleftrightarrow> b = 24" using assms by presburger
  have c: "c = 3 \<Longrightarrow> b = 24 \<Longrightarrow> (100 * a + 4 * b + c + 1) mod 400 = 0 \<longleftrightarrow> a = 3"
    using assms by presburger
  show ?thesis
    unfolding is_leap_def m4 m100 m400 using a b c by (cases "c = 3"; cases "b = 24"; simp)
qed

lemma divmod_facts:
  fixes x k :: int
  assumes "0 < k"
  shows "x = k * (x div k) + x mod k" "0 \<le> x mod k" "x mod k < k"
  using assms by simp_all

lemma ord2ymd_correct:
  assumes "1 \<le> n" and "ord2ymd n = (y, m, d)"
  shows "1 \<le> y \<and> 1 \<le> m \<and> m \<le> 12 \<and> 1 \<le> d \<and> d \<le> days_in_month y m \<and> ymd2ord y m d = n \<and>
         (n \<le> 3652059 \<longrightarrow> y \<le> 9999) \<and> (364878 \<le> n \<longrightarrow> 1000 \<le> y)"
proof -
  define n0 where "n0 = n - 1"
  define q where "q = n0 div 146097"
  define r where "r = n0 mod 146097"
  define a where "a = r div 36524"
  define r1 where "r1 = r mod 36524"
  define b where "b = r1 div 1461"
  define r2 where "r2 = r1 mod 1461"
  define c where "c = r2 div 365"
  define r3 where "r3 = r2 mod 365"
  have e0: "n0 = 146097 * q + r" "0 \<le> r" "r < 146097"
    unfolding q_def r_def by (rule divmod_facts; simp)+
  have e1: "r = 36524 * a + r1" "0 \<le> r1" "r1 < 36524"
    unfolding a_def r1_def by (rule divmod_facts; simp)+
  have e2: "r1 = 1461 * b + r2" "0 \<le> r2" "r2 < 1461"
    unfolding b_def r2_def by (rule divmod_facts; simp)+
  have e3: "r2 = 365 * c + r3" "0 \<le> r3" "r3 < 365"
    unfolding c_def r3_def by (rule divmod_facts; simp)+
  have n0: "0 \<le> n0" using assms(1) by (simp add: n0_def)
  have q0: "0 \<le> q" using n0 by (simp add: q_def pos_imp_zdiv_nonneg_iff)
  have a0: "0 \<le> a" "a \<le> 4" using e0 e1 by linarith+
  have b0: "0 \<le> b" "b \<le> 24" using e1 e2 by linarith+
  have c0: "0 \<le> c" "c \<le> 4" using e2 e3 by linarith+
  define leap where "leap = (c = 3 \<and> (b \<noteq> 24 \<or> a = 3))"
  define month where "month = (r3 + 50) div 32"
  define preceding where
    "preceding = DAYS_BEFORE_MONTH ! nat month + (if 2 < month \<and> leap then 1 else 0)"
  define res where "res = (if r3 < preceding
               then (month - 1, r3 - (preceding - (DAYS_IN_MONTH ! nat (month - 1)
                                    + (if month - 1 = 2 \<and> leap then 1 else 0))) + 1)
               else (month, r3 - preceding + 1))"
  define yr where "yr = q * 400 + 1 + a * 100 + b * 4 + c"
  have unf0: "ord2ymd n =
      (if c = 4 \<or> a = 4 then (yr - 1, 12, 31)
       else if r3 < preceding
            then (yr, month - 1, r3 - (preceding - (DAYS_IN_MONTH ! nat (month - 1)
                                    + (if month - 1 = 2 \<and> leap then 1 else 0))) + 1)
            else (yr, month, r3 - preceding + 1))"
    unfolding ord2ymd_def Let_def DI400Y_def DI100Y_def DI4Y_def
    unfolding n0_def [symmetric]
    unfolding q_def [symmetric] r_def [symmetric]
    unfolding a_def [symmetric] r1_def [symmetric]
    unfolding b_def [symmetric] r2_def [symmetric]
    unfolding c_def [symmetric] r3_def [symmetric]
    unfolding yr_def [symmetric] leap_def [symmetric]
    unfolding month_def [symmetric]
    unfolding preceding_def [symmetric]
    by (rule refl)
  have unf: "ord2ymd n =
      (if c = 4 \<or> a = 4 then (400 * q + 100 * a + 4 * b + c, 12, 31)
       else (400 * q + 100 * a + 4 * b + c + 1, fst res, snd res))"
    unfolding unf0 res_def by (simp add: yr_def)
  show ?thesis
  proof (cases "c = 4 \<or> a = 4")
    case True
    have ymd: "y = 400 * q + 100 * a + 4 * b + c" "m = 12" "d = 31"
      using unf assms(2) True by simp_all
    obtain a' b' where ab: "0 \<le> a'" "a' \<le> 3" "0 \<le> b'" "b' \<le> 24"
      and y': "y = 400 * q + 100 * a' + 4 * b' + 3 + 1"
      and n': "n0 = 146097 * q + 36524 * a' + 1461 * b' + 365 * 3 + 365"
      and lpc: "b' \<noteq> 24 \<or> a' = 3"
    proof (cases "a = 4")
      case True
      then have "r1 = 0" "b = 0" "r2 = 0" "c = 0" "r3 = 0"
        using e0 e1 e2 e3 b0 c0 by linarith+
      then show ?thesis
        using that [of 3 24] True ymd e0 e1 by simp
    next
      case False
      then have c4: "c = 4" using True by simp
      then have "r3 = 0" "b \<le> 23" "a \<le> 3" using e1 e2 e3 a0 b0 False by linarith+
      then show ?thesis
        using that [of a b] c4 ymd e0 e1 e2 e3 a0 b0 by simp
    qed
    have three: "(0::int) \<le> 3" "(3::int) \<le> 3" by simp_all
    have dby: "days_before_year y = 146097 * q + 36524 * a' + 1461 * b' + 365 * 3"
      unfolding y' by (rule days_before_year_decomp [OF ab three])
    have lp: "is_leap y"
      unfolding y' is_leap_decomp [OF ab three]
      using lpc by simp
    have "ymd2ord y m d = n"
      using dby lp n' by (simp add: ymd(2,3) ymd2ord_def days_before_month_def DAYS_BEFORE_MONTH_def
          n0_def)
    moreover have "d \<le> days_in_month y m"
      by (simp add: ymd(2,3) days_in_month_def DAYS_IN_MONTH_def)
    moreover have "1 \<le> y" using y' q0 ab by linarith
    moreover have "n \<le> 3652059 \<longrightarrow> y \<le> 9999"
    proof
      assume "n \<le> 3652059"
      then have "n0 \<le> 3652058" by (simp add: n0_def)
      then have "146097 * q + 36524 * a' + 1461 * b' \<le> 3650598" using n' by linarith
      then have "q \<le> 24" using ab by linarith
      show "y \<le> 9999"
      proof (cases "q = 24")
        case True
        then have "36524 * a' + 1461 * b' \<le> 144270"
          using \<open>146097 * q + 36524 * a' + 1461 * b' \<le> 3650598\<close> by linarith
        then have "100 * a' + 4 * b' \<le> 395" using ab by linarith
        then show ?thesis using y' True by linarith
      next
        case False
        then have "q \<le> 23" using \<open>q \<le> 24\<close> by linarith
        then show ?thesis using y' ab by linarith
      qed
    qed
    moreover have "364878 \<le> n \<longrightarrow> 1000 \<le> y"
    proof
      assume "364878 \<le> n"
      then have ge: "364877 \<le> n0" by (simp add: n0_def)
      then have "2 \<le> q" using n' ab by linarith
      show "1000 \<le> y"
      proof (cases "q = 2")
        case True
        then have g1: "71223 \<le> 36524 * a' + 1461 * b'" using ge n' by linarith
        then have "1 \<le> a'" using ab by linarith
        show ?thesis
        proof (cases "a' = 1")
          case True
          then have "24 \<le> b'" using g1 by linarith
          then show ?thesis using y' \<open>q = 2\<close> True by linarith
        next
          case False
          then have "2 \<le> a'" using \<open>1 \<le> a'\<close> by linarith
          then show ?thesis using y' \<open>q = 2\<close> ab by linarith
        qed
      next
        case False
        then have "3 \<le> q" using \<open>2 \<le> q\<close> by linarith
        then show ?thesis using y' ab by linarith
      qed
    qed
    ultimately show ?thesis by (simp add: ymd(2,3))
  next
    case False
    then have a3: "a \<le> 3" and c3: "c \<le> 3" using a0 c0 by linarith+
    have ymd: "y = 400 * q + 100 * a + 4 * b + c + 1" "m = fst res" "d = snd res"
      using unf assms(2) False by auto
    have dby: "days_before_year y = 146097 * q + 36524 * a + 1461 * b + 365 * c"
      unfolding ymd(1) by (rule days_before_year_decomp [OF a0(1) a3 b0 c0(1) c3])
    have lp: "is_leap y = leap"
      unfolding ymd(1) leap_def by (rule is_leap_decomp [OF a0(1) a3 b0 c0(1) c3])
    note mo = month_of_offset [OF e3(2,3), of leap,
        folded month_def, folded preceding_def, folded res_def, folded ymd(2,3)]
    have "ymd2ord y m d = n"
      using dby mo e0 e1 e2 e3
      by (simp add: ymd2ord_def days_before_month_def lp n0_def)
    moreover have "d \<le> days_in_month y m"
      using mo by (simp add: days_in_month_def lp)
    moreover have "1 \<le> y" using ymd(1) q0 a0 b0 c0 by linarith
    moreover have "n \<le> 3652059 \<longrightarrow> y \<le> 9999"
    proof
      assume "n \<le> 3652059"
      then have le: "146097 * q + 36524 * a + 1461 * b + 365 * c + r3 \<le> 3652058"
        using e0 e1 e2 e3 by (simp add: n0_def)
      then have "q \<le> 24" using a0 b0 c0 e3 by linarith
      show "y \<le> 9999"
      proof (cases "q = 24")
        case True
        then have l1: "36524 * a + 1461 * b + 365 * c + r3 \<le> 145730" using le by linarith
        show ?thesis
        proof (cases "a = 3")
          case True
          then have l2: "1461 * b + 365 * c + r3 \<le> 36158" using l1 by linarith
          show ?thesis
          proof (cases "b = 24")
            case True
            then have "365 * c + r3 \<le> 1094" using l2 by linarith
            then have "c \<le> 2" using e3 by linarith
            then show ?thesis using ymd(1) \<open>q = 24\<close> \<open>a = 3\<close> True by linarith
          next
            case False
            then have "b \<le> 23" using b0 by linarith
            then show ?thesis using ymd(1) \<open>q = 24\<close> \<open>a = 3\<close> c3 by linarith
          qed
        next
          case False
          then have "a \<le> 2" using a3 by linarith
          then show ?thesis using ymd(1) True b0 c3 by linarith
        qed
      next
        case False
        then have "q \<le> 23" using \<open>q \<le> 24\<close> by linarith
        then show ?thesis using ymd(1) a3 b0 c3 by linarith
      qed
    qed
    moreover have "364878 \<le> n \<longrightarrow> 1000 \<le> y"
    proof
      assume "364878 \<le> n"
      then have ge: "364877 \<le> 146097 * q + 36524 * a + 1461 * b + 365 * c + r3"
        using e0 e1 e2 e3 by (simp add: n0_def)
      then have "2 \<le> q" using a3 b0 c3 e3 by linarith
      show "1000 \<le> y"
      proof (cases "q = 2")
        case True
        then have g1: "72683 \<le> 36524 * a + 1461 * b + 365 * c + r3" using ge by linarith
        then have "1 \<le> a" using b0 c3 e3 by linarith
        show ?thesis
        proof (cases "a = 1")
          case True
          then have g2: "36159 \<le> 1461 * b + 365 * c + r3" using g1 by linarith
          then have "24 \<le> b" using c3 e3 by linarith
          then have "b = 24" using b0 by linarith
          then have "1095 \<le> 365 * c + r3" using g2 by linarith
          then have "3 \<le> c" using e3 by linarith
          then show ?thesis using ymd(1) \<open>q = 2\<close> \<open>a = 1\<close> \<open>b = 24\<close> by linarith
        next
          case False
          then have "2 \<le> a" using \<open>1 \<le> a\<close> by linarith
          then show ?thesis using ymd(1) \<open>q = 2\<close> b0 c0 by linarith
        qed
      next
        case False
        then have "3 \<le> q" using \<open>2 \<le> q\<close> by linarith
        then show ?thesis using ymd(1) a0 b0 c0 by linarith
      qed
    qed
    ultimately show ?thesis using mo by simp
  qed
qed

section \<open>Merging the busy intervals of a day\<close>

lemma merge_step_inv:
  assumes "merge_inv acc" and "acc \<noteq> [] \<Longrightarrow> utc (fst (last acc)) \<le> utc (fst iv)"
  shows "merge_inv (merge_step acc iv)"
    and "utc (fst (last (merge_step acc iv))) \<le> utc (fst iv)"
    and "merge_step acc iv \<noteq> []"
    and "covered (merge_step acc iv) = covered acc \<union> interval_set iv"
proof -
  show "merge_inv (merge_step acc iv)" using assms
    by (cases acc rule: rev_cases)
       (auto simp: merge_step_Nil merge_step_snoc merge_inv_def sorted_append
          sorted_wrt_append utc_py_max)
  show "utc (fst (last (merge_step acc iv))) \<le> utc (fst iv)" using assms
    by (cases acc rule: rev_cases) (auto simp: merge_step_Nil merge_step_snoc)
  show "merge_step acc iv \<noteq> []"
    by (cases acc rule: rev_cases) (auto simp: merge_step_Nil merge_step_snoc)
  show "covered (merge_step acc iv) = covered acc \<union> interval_set iv" using assms
    by (cases acc rule: rev_cases)
       (auto simp: merge_step_Nil merge_step_snoc covered_append covered_Cons covered_Nil
          interval_set_def utc_py_max)
qed

lemma foldl_merge_step:
  assumes "merge_inv acc" and "sorted (map (\<lambda>x. utc (fst x)) xs)"
    and "acc \<noteq> [] \<Longrightarrow> \<forall>x \<in> set xs. utc (fst (last acc)) \<le> utc (fst x)"
  shows "merge_inv (foldl merge_step acc xs) \<and>
         covered (foldl merge_step acc xs) = covered acc \<union> covered xs"
  using assms
proof (induction xs arbitrary: acc)
  case Nil
  then show ?case by (simp add: covered_Nil)
next
  case (Cons x xs)
  have le: "acc \<noteq> [] \<Longrightarrow> utc (fst (last acc)) \<le> utc (fst x)"
    using Cons.prems(3) by simp
  note st = merge_step_inv [OF Cons.prems(1) le]
  have "\<forall>y \<in> set xs. utc (fst (last (merge_step acc x))) \<le> utc (fst y)"
    using st(2) Cons.prems(2) by fastforce
  with Cons.IH [of "merge_step acc x"] st Cons.prems(2)
  show ?case by (auto simp: covered_Cons)
qed

lemma clip_event_set:
  "(case clip_event day tz ev of None \<Rightarrow> {} | Some iv \<Rightarrow> interval_set iv) =
   {utc (ev_begin ev) ..< utc (ev_end ev)} \<inter> {utc (work_start day tz) ..< utc (work_end day tz)}"
  by (auto simp: clip_event_def Let_def interval_set_def utc_py_max utc_py_min dt_lt_def
        utc_astimezone)

lemma covered_map_filter:
  "covered (List.map_filter f xs) =
     (\<Union>x \<in> set xs. case f x of None \<Rightarrow> {} | Some iv \<Rightarrow> interval_set iv)"
  by (induction xs) (auto simp: List.map_filter_simps covered_Nil covered_Cons split: option.splits)

lemma covered_sort_key: "covered (sort_key f xs) = covered xs"
  by (simp add: covered_def)

lemma events_for_day_inv:
  "merge_inv (events_for_day events day tz) \<and>
   covered (events_for_day events day tz) =
     (\<Union>ev \<in> set events. {utc (ev_begin ev) ..< utc (ev_end ev)})
       \<inter> {utc (work_start day tz) ..< utc (work_end day tz)}"
proof -
  let ?xs = "sort_key (\<lambda>x. utc (fst x)) (List.map_filter (clip_event day tz) events)"
  have "merge_inv []" by (simp add: merge_inv_def)
  moreover have "sorted (map (\<lambda>x. utc (fst x)) ?xs)" by simp
  ultimately have "merge_inv (foldl merge_step [] ?xs) \<and>
      covered (foldl merge_step [] ?xs) = covered [] \<union> covered ?xs"
    by (rule foldl_merge_step) simp
  then show ?thesis
    by (auto simp: events_for_day_def Let_def covered_Nil covered_sort_key
          covered_map_filter clip_event_set)
qed

lemma separated_disjoint:
  "sorted_wrt (\<lambda>a b. utc (snd a) < utc (fst b)) ivs \<Longrightarrow>
   sorted_wrt (\<lambda>a b. interval_set a \<inter> interval_set b = {}) ivs"
  by (erule sorted_wrt_mono_rel [rotated]) (auto simp: interval_set_def)

text \<open>
  C1. For every event pool, target date and time zone, the busy list of
  \<open>events_for_day\<close> is sorted by start instant, its intervals are pairwise
  disjoint (each one even ends strictly before every later one starts), and the
  instants it covers are exactly those of the input events that lie in the
  working window from 09:00 to 17:00 of the date. No assumption on the events is
  needed, so the statement holds in particular when every event has
  \<open>start < end\<close>.
\<close>

theorem events_for_day_merged:
  "sorted (map (\<lambda>iv. utc (fst iv)) (events_for_day events day tzinfo)) \<and>
   sorted_wrt (\<lambda>a b. utc (snd a) < utc (fst b)) (events_for_day events day tzinfo) \<and>
   sorted_wrt (\<lambda>a b. interval_set a \<inter> interval_set b = {}) (events_for_day events day tzinfo) \<and>
   covered (events_for_day events day tzinfo) =
     (\<Union>ev \<in> set events. {utc (ev_begin ev) ..< utc (ev_end ev)})
       \<inter> {utc (work_start day tzinfo) ..< utc (work_end day tzinfo)}"
  using events_for_day_inv [of events day tzinfo] separated_disjoint
  by (simp add: merge_inv_def)

theorem events_for_day_merged_witness:
  "events_for_day sample_pool sample_day 0 =
     [(combine sample_day 9 0 0, combine sample_day 11 0 0),
      (combine sample_day 16 0 0, combine sample_day 17 0 0)] \<and>
   sorted_wrt (\<lambda>a b. utc (snd a) < utc (fst b)) (events_for_day sample_pool sample_day 0) \<and>
   covered (events_for_day sample_pool sample_day 0) =
     (\<Union>ev \<in> set sample_pool. {utc (ev_begin ev) ..< utc (ev_end ev)})
       \<inter> {utc (work_start sample_day 0) ..< utc (work_end sample_day 0)}"
proof -
  have "events_for_day sample_pool sample_day 0 =
     [(combine sample_day 9 0 0, combine sample_day 11 0 0),
      (combine sample_day 16 0 0, combine sample_day 17 0 0)]"
    by code_simp
  then show ?thesis
    using events_for_day_merged [of sample_pool sample_day 0] by simp
qed


section \<open>Free time is the complement of busy time\<close>

lemma merge_step_inside:
  assumes "list_all (inside lo hi) acc" "inside lo hi iv"
  shows "list_all (inside lo hi) (merge_step acc iv)"
  using assms
  by (cases acc rule: rev_cases)
     (auto simp: merge_step_Nil merge_step_snoc inside_def utc_py_max)

lemma foldl_merge_step_inside:
  "list_all (inside lo hi) acc \<Longrightarrow> list_all (inside lo hi) xs \<Longrightarrow>
   list_all (inside lo hi) (foldl merge_step acc xs)"
  by (induction xs arbitrary: acc) (simp_all add: merge_step_inside)

lemma utc_work_start: "utc (work_start day tz) = day * us_per_day + hours 9 - tz"
  by (simp add: work_start_def combine_def utc_def minutes_def)

lemma utc_work_end: "utc (work_end day tz) = day * us_per_day + hours 17 - tz"
  by (simp add: work_end_def combine_def utc_def minutes_def)

lemma work_start_lt_end: "utc (work_start day tz) < utc (work_end day tz)"
  by (simp add: utc_work_start utc_work_end hours_def us_per_hour_def)

lemma clip_event_inside:
  assumes "utc (ev_begin ev) \<le> utc (ev_end ev)" "clip_event day tz ev = Some iv"
  shows "inside (utc (work_start day tz)) (utc (work_end day tz)) iv"
  using assms work_start_lt_end [of day tz]
  by (auto simp: clip_event_def Let_def inside_def utc_py_max utc_py_min dt_lt_def
        utc_astimezone split: if_splits)

lemma map_filter_inside:
  assumes "\<forall>ev \<in> set events. utc (ev_begin ev) \<le> utc (ev_end ev)"
  shows "list_all (inside (utc (work_start day tz)) (utc (work_end day tz)))
           (List.map_filter (clip_event day tz) events)"
  using assms
  by (induction events)
     (auto simp: List.map_filter_simps clip_event_inside split: option.splits)

lemma events_for_day_inside:
  assumes "\<forall>ev \<in> set events. utc (ev_begin ev) \<le> utc (ev_end ev)"
  shows "list_all (inside (utc (work_start day tz)) (utc (work_end day tz)))
           (events_for_day events day tz)"
proof -
  have "list_all (inside (utc (work_start day tz)) (utc (work_end day tz)))
          (sort_key (\<lambda>x. utc (fst x)) (List.map_filter (clip_event day tz) events))"
    using map_filter_inside [OF assms, of day tz] by (simp add: list_all_iff)
  then show ?thesis
    by (simp add: events_for_day_def Let_def foldl_merge_step_inside)
qed

lemma gaps_Nil: "gaps [] = []" by (simp add: gaps_def)
lemma gaps_single: "gaps [a] = []" by (simp add: gaps_def)
lemma gaps_Cons2:
  "gaps (a # b # xs) =
     (if utc (snd a) < utc (fst b) then [(snd a, fst b)] else []) @ gaps (b # xs)"
proof -
  have "[0 ..< length (a # b # xs) - 1] = 0 # map Suc [0 ..< length (b # xs) - 1]"
    by (simp add: upt_conv_Cons map_Suc_upt del: upt_Suc)
  then show ?thesis
    by (simp add: gaps_def dt_lt_def comp_def del: upt_Suc cong: if_cong)
qed

lemma first_le_last:
  "separated (b # bs) \<Longrightarrow> list_all (inside lo hi) (b # bs) \<Longrightarrow>
   utc (snd b) \<le> utc (snd (last (b # bs))) \<and> utc (fst b) \<le> utc (fst (last (b # bs)))"
  by (induction bs arbitrary: b) (fastforce simp: separated_def inside_def)+

lemma gaps_cover:
  "separated (b # bs) \<Longrightarrow> list_all (inside lo hi) (b # bs) \<Longrightarrow>
   covered (gaps (b # bs)) \<union> covered (b # bs) = {utc (fst b) ..< utc (snd (last (b # bs)))} \<and>
   covered (gaps (b # bs)) \<inter> covered (b # bs) = {} \<and>
   (\<forall>g \<in> set (gaps (b # bs)). utc (snd b) \<le> utc (fst g) \<and> utc (fst g) \<le> utc (snd g) \<and>
        utc (snd g) \<le> utc (fst (last (b # bs)))) \<and>
   sorted_wrt (\<lambda>x y. utc (snd x) \<le> utc (fst y)) (gaps (b # bs))"
proof (induction bs arbitrary: b)
  case Nil
  then show ?case
    by (auto simp: gaps_single covered_Nil covered_Cons interval_set_def)
next
  case (Cons c cs)
  have sep: "separated (c # cs)" and wf: "list_all (inside lo hi) (c # cs)"
    using Cons.prems by (auto simp: separated_def)
  note IH = Cons.IH [OF sep wf]
  note fl = first_le_last [OF sep wf]
  have bc: "utc (fst b) \<le> utc (snd b)" "utc (snd b) < utc (fst c)" "utc (fst c) \<le> utc (snd c)"
    using Cons.prems by (auto simp: separated_def inside_def)
  have g: "gaps (b # c # cs) = (snd b, fst c) # gaps (c # cs)"
    using bc by (simp add: gaps_Cons2)
  have cov: "covered (c # cs) \<subseteq> {utc (fst c) ..< utc (snd (last (c # cs)))}"
    "covered (gaps (c # cs)) \<subseteq> {utc (fst c) ..< utc (snd (last (c # cs)))}"
    using IH by blast+
  have 1: "covered (gaps (b # c # cs)) \<union> covered (b # c # cs)
        = {utc (fst b) ..< utc (snd (last (b # c # cs)))}"
  proof -
    have "covered (gaps (b # c # cs)) \<union> covered (b # c # cs)
        = {utc (fst b) ..< utc (snd b)} \<union> {utc (snd b) ..< utc (fst c)}
            \<union> (covered (gaps (c # cs)) \<union> covered (c # cs))"
      by (auto simp: g covered_Cons interval_set_def)
    also have "\<dots> = {utc (fst b) ..< utc (snd b)} \<union> {utc (snd b) ..< utc (fst c)}
            \<union> {utc (fst c) ..< utc (snd (last (c # cs)))}"
      using IH by simp
    also have "\<dots> = {utc (fst b) ..< utc (snd (last (c # cs)))}"
      using bc fl by auto
    finally show ?thesis by simp
  qed
  have 2: "covered (gaps (b # c # cs)) \<inter> covered (b # c # cs) = {}"
  proof -
    have "covered (gaps (c # cs)) \<inter> covered (c # cs) = {}" using IH by blast
    moreover have "{utc (snd b) ..< utc (fst c)} \<inter> covered (c # cs) = {}"
      using cov(1) by auto
    moreover have "covered (gaps (c # cs)) \<inter> {utc (fst b) ..< utc (snd b)} = {}"
      using cov(2) bc by auto
    ultimately show ?thesis
      using bc by (auto simp: g covered_Cons [of b] covered_Cons [of "(snd b, fst c)"] interval_set_def)
  qed
  have 3: "\<forall>g \<in> set (gaps (b # c # cs)). utc (snd b) \<le> utc (fst g) \<and> utc (fst g) \<le> utc (snd g)
      \<and> utc (snd g) \<le> utc (fst (last (b # c # cs)))"
    using IH bc fl by (auto simp: g)
  have 4: "sorted_wrt (\<lambda>x y. utc (snd x) \<le> utc (fst y)) (gaps (b # c # cs))"
    using IH bc by (auto simp: g)
  from 1 2 3 4 show ?case by blast
qed


lemma free_before_now_props:
  assumes "\<forall>ev \<in> set events. utc (ev_begin ev) \<le> utc (ev_end ev)"
  shows "covered (free_before_now events day tz) \<union> covered (events_for_day events day tz)
           = {utc (work_start day tz) ..< utc (work_end day tz)}"
    and "covered (free_before_now events day tz) \<inter> covered (events_for_day events day tz) = {}"
    and "sorted_wrt (\<lambda>x y. utc (snd x) \<le> utc (fst y)) (free_before_now events day tz)"
    and "list_all (inside (utc (work_start day tz)) (utc (work_end day tz)))
           (free_before_now events day tz)"
proof -
  let ?busy = "events_for_day events day tz"
  let ?ws = "work_start day tz" and ?we = "work_end day tz"
  let ?free = "free_before_now events day tz"
  have wf: "list_all (inside (utc ?ws) (utc ?we)) ?busy"
    by (rule events_for_day_inside [OF assms])
  have sep: "separated ?busy"
    using events_for_day_inv [of events day tz] by (simp add: merge_inv_def separated_def)
  have "(covered ?free \<union> covered ?busy = {utc ?ws ..< utc ?we}) \<and>
        covered ?free \<inter> covered ?busy = {} \<and>
        sorted_wrt (\<lambda>x y. utc (snd x) \<le> utc (fst y)) ?free \<and>
        list_all (inside (utc ?ws) (utc ?we)) ?free"
  proof (cases ?busy)
    case Nil
    then show ?thesis using work_start_lt_end [of day tz]
      by (simp add: free_before_now_def covered_Nil covered_Cons interval_set_def inside_def)
  next
    case (Cons b bs)
    note gc = gaps_cover [OF sep [unfolded Cons] wf [unfolded Cons]]
    note fl = first_le_last [OF sep [unfolded Cons] wf [unfolded Cons]]
    have bnd: "utc ?ws \<le> utc (fst b)" "utc (fst b) \<le> utc (snd b)"
      "utc (snd (last (b # bs))) \<le> utc ?we"
      "utc (fst (last (b # bs))) \<le> utc (snd (last (b # bs)))"
      using wf [unfolded Cons] last_in_set [of "b # bs"]
      by (auto simp: inside_def list_all_iff simp del: last_in_set last.simps)
    let ?pre = "if utc ?ws < utc (fst b) then [(?ws, fst b)] else []"
    let ?post = "if utc (snd (last (b # bs))) < utc ?we then [(snd (last (b # bs)), ?we)] else []"
    have free: "?free = ?pre @ gaps (b # bs) @ ?post"
      by (simp add: free_before_now_def Cons dt_lt_def)
    have cpre: "covered ?pre = {utc ?ws ..< utc (fst b)}"
      by (auto simp: covered_Nil covered_Cons interval_set_def)
    have cpost: "covered ?post = {utc (snd (last (b # bs))) ..< utc ?we}"
      by (auto simp: covered_Nil covered_Cons interval_set_def)
    have cg: "covered (gaps (b # bs)) \<subseteq> {utc (fst b) ..< utc (snd (last (b # bs)))}"
      and cb: "covered (b # bs) \<subseteq> {utc (fst b) ..< utc (snd (last (b # bs)))}"
      using gc by blast+
    have u: "covered ?free \<union> covered (b # bs) = {utc ?ws ..< utc ?we}"
    proof -
      have "covered ?free \<union> covered (b # bs) =
          {utc ?ws ..< utc (fst b)} \<union> (covered (gaps (b # bs)) \<union> covered (b # bs))
            \<union> {utc (snd (last (b # bs))) ..< utc ?we}"
        unfolding free covered_append cpre cpost by blast
      also have "\<dots> = {utc ?ws ..< utc (fst b)} \<union> {utc (fst b) ..< utc (snd (last (b # bs)))}
            \<union> {utc (snd (last (b # bs))) ..< utc ?we}"
        using gc by simp
      also have "\<dots> = {utc ?ws ..< utc ?we}"
        using bnd fl by auto
      finally show ?thesis .
    qed
    have d: "covered ?free \<inter> covered (b # bs) = {}"
    proof -
      have "covered (gaps (b # bs)) \<inter> covered (b # bs) = {}" using gc by blast
      moreover have "{utc ?ws ..< utc (fst b)} \<inter> covered (b # bs) = {}" using cb by auto
      moreover have "{utc (snd (last (b # bs))) ..< utc ?we} \<inter> covered (b # bs) = {}"
        using cb by auto
      ultimately show ?thesis
        unfolding free covered_append cpre cpost by blast
    qed
    have gb: "\<forall>g \<in> set (gaps (b # bs)). utc (snd b) \<le> utc (fst g) \<and> utc (fst g) \<le> utc (snd g)
        \<and> utc (snd g) \<le> utc (fst (last (b # bs)))"
      and gs: "sorted_wrt (\<lambda>x y. utc (snd x) \<le> utc (fst y)) (gaps (b # bs))"
      using gc by blast+
    have s: "sorted_wrt (\<lambda>x y. utc (snd x) \<le> utc (fst y)) ?free"
      unfolding free using gb gs bnd fl
      by (fastforce simp: sorted_wrt_append)
    have w: "list_all (inside (utc ?ws) (utc ?we)) ?free"
      unfolding free using gb bnd fl
      by (fastforce simp: list_all_iff inside_def)
    from u d s w show ?thesis by (simp add: Cons)
  qed
  then show "covered ?free \<union> covered ?busy = {utc ?ws ..< utc ?we}"
    and "covered ?free \<inter> covered ?busy = {}"
    and "sorted_wrt (\<lambda>x y. utc (snd x) \<le> utc (fst y)) ?free"
    and "list_all (inside (utc ?ws) (utc ?we)) ?free"
    by blast+
qed

lemma touching_disjoint:
  "sorted_wrt (\<lambda>a b. utc (snd a) \<le> utc (fst b)) ivs \<Longrightarrow>
   sorted_wrt (\<lambda>a b. interval_set a \<inter> interval_set b = {}) ivs"
  by (erule sorted_wrt_mono_rel [rotated]) (auto simp: interval_set_def)

text \<open>
  C2. With no current instant applied, the free intervals of
  \<open>free_intervals_for_day\<close> and the busy intervals of \<open>events_for_day\<close> cover
  exactly the working window from 09:00 to 17:00 of the date, no instant is both
  free and busy, and the intervals of the two lists are pairwise disjoint. The
  events are those the calendar library can hold: none ends before it begins.
\<close>

theorem free_busy_complement:
  assumes "\<forall>ev \<in> set events. utc (ev_begin ev) \<le> utc (ev_end ev)"
  shows "covered (free_intervals_for_day events day tzinfo None)
           \<union> covered (events_for_day events day tzinfo)
         = {utc (work_start day tzinfo) ..< utc (work_end day tzinfo)} \<and>
         covered (free_intervals_for_day events day tzinfo None)
           \<inter> covered (events_for_day events day tzinfo) = {} \<and>
         sorted_wrt (\<lambda>a b. interval_set a \<inter> interval_set b = {})
           (free_intervals_for_day events day tzinfo None @ events_for_day events day tzinfo)"
proof -
  let ?free = "free_intervals_for_day events day tzinfo None"
  let ?busy = "events_for_day events day tzinfo"
  have f: "?free = free_before_now events day tzinfo"
    by (simp add: free_intervals_for_day_def)
  note p = free_before_now_props [OF assms, of day tzinfo, folded f]
  have "\<forall>x \<in> set ?free. \<forall>y \<in> set ?busy. interval_set x \<inter> interval_set y = {}"
    using p(2) by (auto simp: covered_def)
  moreover have "sorted_wrt (\<lambda>a b. interval_set a \<inter> interval_set b = {}) ?busy"
    using events_for_day_inv [of events day tzinfo] separated_disjoint by (simp add: merge_inv_def)
  moreover have "sorted_wrt (\<lambda>a b. interval_set a \<inter> interval_set b = {}) ?free"
    using p(3) by (rule touching_disjoint)
  ultimately show ?thesis using p(1,2) by (simp add: sorted_wrt_append)
qed

theorem free_busy_complement_witness:
  "free_intervals_for_day sample_pool sample_day 0 None =
     [(combine sample_day 11 0 0, combine sample_day 16 0 0)] \<and>
   covered (free_intervals_for_day sample_pool sample_day 0 None)
     \<union> covered (events_for_day sample_pool sample_day 0)
   = {utc (work_start sample_day 0) ..< utc (work_end sample_day 0)} \<and>
   covered (free_intervals_for_day sample_pool sample_day 0 None)
     \<inter> covered (events_for_day sample_pool sample_day 0) = {}"
proof -
  have h: "\<forall>ev \<in> set sample_pool. utc (ev_begin ev) \<le> utc (ev_end ev)"
    by code_simp
  have "free_intervals_for_day sample_pool sample_day 0 None =
     [(combine sample_day 11 0 0, combine sample_day 16 0 0)]"
    by code_simp
  then show ?thesis
    using free_busy_complement [OF h, of sample_day 0] by simp
qed


section \<open>The duration of a candidate\<close>

text \<open>
  C3. Every candidate of \<open>candidate_from_interval\<close> spans exactly the requested
  meeting duration, its end being recomputed from the rounded start; hence so
  does every candidate that \<open>find_best_meeting_slots\<close> keeps and formats (the list
  \<open>best_slots\<close>), whose duration is the requested number of minutes.
\<close>

theorem duration_invariant:
  "(candidate_from_interval iv meeting_td = Some (score, s, e) \<longrightarrow> dt_sub e s = meeting_td) \<and>
   (\<forall>c \<in> set (best_slots all_events n max_slots current_dt clock).
      dt_sub (snd (snd c)) (fst (snd c)) = minutes n)"
proof -
  have "dt_sub (snd (snd c)) (fst (snd c)) = minutes n"
    if c: "c \<in> set (best_slots all_events n max_slots current_dt clock)" for c
  proof -
    obtain iv where "candidate_from_interval iv (minutes n) = Some c"
      using best_slots_from_interval [OF c] by blast
    then show ?thesis
      using candidate_from_interval_duration [of iv "minutes n" "fst c" "fst (snd c)" "snd (snd c)"]
      by simp
  qed
  then show ?thesis using candidate_from_interval_duration by blast
qed

theorem duration_invariant_witness:
  "candidate_from_interval (combine sample_day 12 0 0, combine sample_day 13 0 0) (minutes 30)
     = Some (900, combine sample_day 12 15 0, combine sample_day 12 45 0) \<and>
   dt_sub (combine sample_day 12 45 0) (combine sample_day 12 15 0) = minutes 30 \<and>
   (8100, combine sample_day 13 15 0, combine sample_day 13 45 0)
     \<in> set (best_slots sample_pool 30 10 (combine sample_day 8 0 0) (combine sample_day 8 0 0)) \<and>
   dt_sub (combine sample_day 13 45 0) (combine sample_day 13 15 0) = minutes 30"
proof -
  have a: "candidate_from_interval (combine sample_day 12 0 0, combine sample_day 13 0 0) (minutes 30)
     = Some (900, combine sample_day 12 15 0, combine sample_day 12 45 0)"
    by code_simp
  have b: "(8100, combine sample_day 13 15 0, combine sample_day 13 45 0)
     \<in> set (best_slots sample_pool 30 10 (combine sample_day 8 0 0) (combine sample_day 8 0 0))"
    by code_simp
  show ?thesis
    using a b
      duration_invariant [of "(combine sample_day 12 0 0, combine sample_day 13 0 0)" "minutes 30"
        900 "combine sample_day 12 15 0" "combine sample_day 12 45 0" sample_pool 30 10
        "combine sample_day 8 0 0" "combine sample_day 8 0 0"]
    by fastforce
qed

section \<open>Formatting a slot and parsing it back\<close>

lemma utc_work_bounds: "utc (work_start day tz) < utc (work_end day tz)"
  by (simp add: work_start_def work_end_def combine_def utc_def hours_def us_per_hour_def)

lemma on_day_work: "on_day day tz (work_start day tz)" "on_day day tz (work_end day tz)"
  using utc_work_bounds [of day tz]
  by (simp_all add: on_day_def) (simp_all add: work_start_def work_end_def combine_def)

lemma clip_event_on_day:
  assumes "clip_event day tz ev = Some iv"
  shows "ends_on_day day tz iv"
  using assms utc_work_bounds [of day tz]
  by (auto simp: clip_event_def Let_def ends_on_day_def on_day_def py_max_def py_min_def dt_lt_def
        utc_astimezone split: if_splits)
     (simp_all add: astimezone_def work_start_def work_end_def combine_def)

lemma merge_step_on_day:
  assumes "list_all (ends_on_day day tz) acc" "ends_on_day day tz iv"
  shows "list_all (ends_on_day day tz) (merge_step acc iv)"
  using assms
  by (cases acc rule: rev_cases)
     (auto simp: merge_step_Nil merge_step_snoc ends_on_day_def py_max_def)

lemma foldl_merge_step_on_day:
  "list_all (ends_on_day day tz) acc \<Longrightarrow> list_all (ends_on_day day tz) xs \<Longrightarrow>
   list_all (ends_on_day day tz) (foldl merge_step acc xs)"
  by (induction xs arbitrary: acc) (simp_all add: merge_step_on_day)

lemma events_for_day_on_day: "list_all (ends_on_day day tz) (events_for_day events day tz)"
proof -
  have "list_all (ends_on_day day tz) (List.map_filter (clip_event day tz) events)"
    by (auto simp: list_all_iff set_map_filter clip_event_on_day)
  then have "list_all (ends_on_day day tz)
      (sort_key (\<lambda>x. utc (fst x)) (List.map_filter (clip_event day tz) events))"
    by (simp add: list_all_iff)
  then show ?thesis
    by (simp add: events_for_day_def Let_def foldl_merge_step_on_day)
qed

lemma gaps_on_day:
  assumes "list_all (ends_on_day day tz) busy"
  shows "list_all (ends_on_day day tz) (gaps busy)"
proof -
  have "ends_on_day day tz (snd (busy ! i), fst (busy ! Suc i))" if "i < length busy - 1" for i
  proof -
    have "busy ! i \<in> set busy" "busy ! Suc i \<in> set busy" using that by simp_all
    then show ?thesis using assms by (auto simp: list_all_iff ends_on_day_def)
  qed
  then show ?thesis
    by (auto simp: gaps_def list_all_iff)
qed

lemma free_before_now_on_day: "list_all (ends_on_day day tz) (free_before_now events day tz)"
proof (cases "events_for_day events day tz = []")
  case True
  then show ?thesis by (simp add: free_before_now_def ends_on_day_def on_day_work)
next
  case False
  note b = events_for_day_on_day [of day tz events]
  have "ends_on_day day tz (hd (events_for_day events day tz))"
    "ends_on_day day tz (last (events_for_day events day tz))"
    using b False by (simp_all add: list_all_iff)
  then show ?thesis
    using False gaps_on_day [OF b]
    by (simp add: free_before_now_def Let_def ends_on_day_def on_day_work)
qed

lemma clip_now_on_day:
  assumes "clip_now now iv = Some iv'" "ends_on_day day tz iv" "utcoffset now = tz"
  shows "ends_on_day day tz iv'"
  using assms
  by (auto simp: clip_now_def Let_def ends_on_day_def on_day_def py_max_def dt_lt_def
        split: if_splits)

lemma free_intervals_on_day:
  assumes "\<And>now. current_dt = Some now \<Longrightarrow> utcoffset now = tz"
  shows "list_all (ends_on_day day tz) (free_intervals_for_day events day tz current_dt)"
proof (cases current_dt)
  case None
  then show ?thesis by (simp add: free_intervals_for_day_def free_before_now_on_day)
next
  case (Some now)
  have "list_all (ends_on_day day tz) (List.map_filter (clip_now now) (free_before_now events day tz))"
    using free_before_now_on_day [of day tz events] assms [OF Some]
    by (auto simp: list_all_iff set_map_filter intro: clip_now_on_day)
  then show ?thesis
    by (auto simp: free_intervals_for_day_def Let_def Some free_before_now_on_day)
qed


lemma utcoffset_round_start: "utcoffset (round_start x) = utcoffset x"
  by (simp add: round_start_def Let_def replace_minute_def dt_add_def)

lemma naive_replace_minute_aligned: "naive (replace_minute x m) mod us_per_minute = 0"
proof -
  have "naive x - naive x mod us_per_hour = us_per_minute * (60 * (naive x div us_per_hour))"
    using minus_mod_eq_mult_div [of "naive x" us_per_hour]
    by (simp add: us_per_hour_def us_per_minute_def)
  then have "naive (replace_minute x m)
      = us_per_minute * (60 * (naive x div us_per_hour) + m)"
    by (simp add: replace_minute_def minutes_def algebra_simps)
  then show ?thesis by simp
qed

lemma naive_round_start_aligned: "naive (round_start x) mod us_per_minute = 0"
  by (simp add: round_start_def Let_def naive_replace_minute_aligned)

lemma candidate_on_day:
  assumes "candidate_from_interval iv (minutes n) = Some (sc, s, e)"
    and "ends_on_day day tz iv" and "0 \<le> n"
  shows "on_day day tz s" and "on_day day tz e"
    and "naive s mod us_per_minute = 0" and "naive e mod us_per_minute = 0"
proof -
  let ?s = "round_start (dt_add (fst iv) (td_half (dt_sub (snd iv) (fst iv) - minutes n)))"
  have s: "s = ?s" and e: "e = dt_add ?s (minutes n)"
    and g: "\<not> dt_lt ?s (fst iv)" "\<not> dt_lt (snd iv) (dt_add ?s (minutes n))"
    using assms(1) by (auto simp: candidate_from_interval_def Let_def split: if_splits)
  have off: "utcoffset ?s = tz"
    using assms(2) by (simp add: utcoffset_round_start dt_add_def ends_on_day_def on_day_def)
  have n0: "0 \<le> minutes n" using assms(3) by (simp add: minutes_def us_per_minute_def)
  have le: "utc (fst iv) \<le> utc ?s" "utc ?s \<le> utc (dt_add ?s (minutes n))"
    "utc (dt_add ?s (minutes n)) \<le> utc (snd iv)"
    using g n0 by (simp_all add: dt_lt_def utc_dt_add)
  show "on_day day tz s"
    using assms(2) le off unfolding s ends_on_day_def on_day_def by linarith
  show "on_day day tz e"
    using assms(2) le off unfolding e ends_on_day_def on_day_def
    by (simp add: dt_add_def)
  show "naive s mod us_per_minute = 0"
    unfolding s by (rule naive_round_start_aligned)
  have "naive e = naive ?s + n * us_per_minute"
    unfolding e by (simp add: dt_add_def minutes_def)
  then show "naive e mod us_per_minute = 0"
    using naive_round_start_aligned [of "dt_add (fst iv) (td_half (dt_sub (snd iv) (fst iv) - minutes n))"]
    by simp
qed

lemma fields_on_day:
  assumes "on_day day tz p" and "naive p mod us_per_minute = 0"
  shows "dt_date p = day \<and> 0 \<le> dt_hour p \<and> dt_hour p \<le> 23 \<and> 0 \<le> dt_minute p \<and> dt_minute p \<le> 59 \<and>
         naive p = day * us_per_day + hours (dt_hour p) + minutes (dt_minute p)"
proof -
  define x where "x = naive p"
  define k where "k = x div 60000000"
  define h where "h = k div 60"
  define dd where "dd = h div 24"
  have lo: "day * 86400000000 + 32400000000 \<le> x" and hi: "x \<le> day * 86400000000 + 61200000000"
    using assms(1)
    by (simp_all add: on_day_def utc_def work_start_def work_end_def combine_def hours_def
          minutes_def us_per_day_def us_per_hour_def x_def)
  have xk: "x = 60000000 * k"
    using assms(2) by (simp add: x_def k_def us_per_minute_def mod_eq_0_iff_dvd)
  have kh: "k = 60 * h + k mod 60" by (simp add: h_def)
  have hd: "h = 24 * dd + h mod 24" by (simp add: dd_def)
  have xh: "x div 3600000000 = h"
    using zdiv_zmult2_eq [of 60 x 60000000] by (simp add: k_def h_def)
  have xd: "x div 86400000000 = dd"
    using zdiv_zmult2_eq [of 24 x 3600000000] by (simp add: xh dd_def)
  have r: "0 \<le> x - day * 86400000000" "x - day * 86400000000 < 86400000000"
    using lo hi by linarith+
  have "x = day * 86400000000 + (x - day * 86400000000)" by simp
  then have "x div 86400000000 = day"
    using div_mod_decomp(1) [OF r, of day] by simp
  then have day: "dd = day" using xd by simp
  define mi hr where "mi = k mod 60" and "hr = h mod 24"
  have b: "0 \<le> mi" "mi \<le> 59" "0 \<le> hr" "hr \<le> 23"
    by (simp_all add: mi_def hr_def)
  have "k = 60 * h + mi" "h = 24 * dd + hr"
    using kh hd by (simp_all only: mi_def hr_def)
  then have "x = day * 86400000000 + hr * 3600000000 + mi * 60000000"
    using xk day by simp
  moreover have "dt_date p = dd"
    using xd by (simp add: dt_date_def us_per_day_def x_def)
  moreover have "dt_hour p = hr"
    using xh by (simp add: dt_hour_def us_per_hour_def x_def hr_def)
  moreover have "dt_minute p = mi"
    by (simp add: dt_minute_def us_per_minute_def x_def mi_def k_def)
  ultimately show ?thesis
    using b day
    by (simp add: x_def hours_def minutes_def us_per_day_def us_per_hour_def us_per_minute_def)
qed

lemma fmt_year_four: "1000 \<le> y \<Longrightarrow> fmt_year y = fmt4 y"
  by (simp add: fmt_year_def)

lemma format_slot_shape:
  assumes "ord2ymd (dt_date s) = (y, mo, d)" and "1000 \<le> y"
  shows "format_slot (sc, s, e) =
      (fmt4 y @ ''-'' @ fmt2 mo @ ''-'' @ fmt2 d) @ '': ''
        @ (fmt2 (dt_hour s) @ '':'' @ fmt2 (dt_minute s)) @ ''-''
        @ (fmt2 (dt_hour e) @ '':'' @ fmt2 (dt_minute e))"
  using assms
  by (simp add: format_slot_def strftime_date_def format_date_def strftime_hm_def fmt_year_four)

lemma candidate_of_best_slot:
  assumes "c \<in> set (best_slots all_events n max_slots current_dt clock)"
  obtains day iv where
    "iv \<in> set (free_intervals_for_day all_events day (utcoffset current_dt)
                 (if day = dt_date current_dt then Some current_dt else None))"
    "candidate_from_interval iv (minutes n) = Some c"
proof -
  have "c \<in> set (candidate_slots all_events n current_dt clock)"
    using assms set_py_take by (fastforce simp: best_slots_def)
  then show ?thesis
    using that by (auto simp: candidate_slots_def day_candidates_def Let_def set_map_filter)
qed

text \<open>
  What the parser recovers. For every candidate that \<open>find_best_meeting_slots\<close>
  formats, with a duration that is not negative and a date of the years 1000 to
  9999, parsing the descriptor returns the wall-clock date and time of the
  candidate's start and end, and attaches the offset \<open>SGT\<close> in place of the
  engine's: the instants are the candidate's only if the two offsets agree.
\<close>

lemma parse_format_wall_clock:
  assumes "c \<in> set (best_slots all_events meeting_duration_minutes max_slots current_dt clock)"
    and "0 \<le> meeting_duration_minutes"
    and "364878 \<le> dt_date (fst (snd c))" and "dt_date (fst (snd c)) \<le> 3652059"
  shows "parse_selected_time SGT (format_slot c)
         = Inr ((fst (snd c))\<lparr>utcoffset := SGT\<rparr>, (snd (snd c))\<lparr>utcoffset := SGT\<rparr>)"
proof -
  let ?tz = "utcoffset current_dt"
  obtain sc s e where c: "c = (sc, s, e)" by (cases c) auto
  obtain day iv where
    iv: "iv \<in> set (free_intervals_for_day all_events day ?tz
                 (if day = dt_date current_dt then Some current_dt else None))"
    and cand: "candidate_from_interval iv (minutes meeting_duration_minutes) = Some (sc, s, e)"
    using candidate_of_best_slot [OF assms(1)] unfolding c by blast
  have "list_all (ends_on_day day ?tz)
      (free_intervals_for_day all_events day ?tz
         (if day = dt_date current_dt then Some current_dt else None))"
    by (rule free_intervals_on_day) (auto split: if_splits)
  then have ends: "ends_on_day day ?tz iv"
    using iv by (simp add: list_all_iff)
  note cd = candidate_on_day [OF cand ends assms(2)]
  note fs = fields_on_day [OF cd(1) cd(3)]
  note fe = fields_on_day [OF cd(2) cd(4)]
  obtain y mo d where ymd: "ord2ymd (dt_date s) = (y, mo, d)"
    by (cases "ord2ymd (dt_date s)") auto
  have rng: "364878 \<le> dt_date s" "dt_date s \<le> 3652059"
    using assms(3,4) by (simp_all add: c)
  have one: "1 \<le> dt_date s" using rng(1) by linarith
  note cal = ord2ymd_correct [OF one ymd]
  have y: "1 \<le> y" "y \<le> 9999" "1 \<le> mo" "mo \<le> 12" "1 \<le> d" "d \<le> days_in_month y mo"
    and y1000: "1000 \<le> y"
    using cal rng by simp_all
  have ord: "ymd2ord y mo d = day"
    using cal fs by simp
  have p: "parse_selected_time SGT (format_slot (sc, s, e))
      = Inr (mk_datetime (y, mo, d, dt_hour s, dt_minute s) SGT,
             mk_datetime (y, mo, d, dt_hour e, dt_minute e) SGT)"
    unfolding format_slot_shape [OF ymd y1000]
    by (rule parse_formatted) (use y fs fe in simp_all)
  have "mk_datetime (y, mo, d, dt_hour s, dt_minute s) SGT = s\<lparr>utcoffset := SGT\<rparr>"
    using fs by (simp add: mk_datetime_def ord)
  moreover have "mk_datetime (y, mo, d, dt_hour e, dt_minute e) SGT = e\<lparr>utcoffset := SGT\<rparr>"
    using fe by (simp add: mk_datetime_def ord)
  ultimately show ?thesis
    using p by (simp add: c)
qed

text \<open>
  C4 on a deployment in Singapore. The engine's clock is at +08:00, the two
  calendars are empty, the duration is 30 minutes and it is Monday 2024-01-01,
  08:00. The candidate of that Monday runs from 12:45 to 13:15 at +08:00 and is
  formatted as "2024-01-01: 12:45-13:15". \<open>parse_selected_time\<close> reads the
  descriptor back as 12:45 to 13:15 at the offset that \<^verbatim>\<open>replace(tzinfo=SGT)\<close>
  attaches, +06:55: both instants lie one hour and five minutes after the
  candidate's, so parsing after formatting is not the identity.
\<close>

theorem parse_after_format_shifted:
  "(13500, combine sample_day 12 45 (hours 8), combine sample_day 13 15 (hours 8))
     \<in> set (best_slots [] 30 10 (combine sample_day 8 0 (hours 8)) (combine sample_day 8 0 (hours 8))) \<and>
   format_slot (13500, combine sample_day 12 45 (hours 8), combine sample_day 13 15 (hours 8))
     = ''2024-01-01: 12:45-13:15'' \<and>
   parse_selected_time SGT_utcoffset ''2024-01-01: 12:45-13:15''
     = Inr (combine sample_day 12 45 SGT_utcoffset, combine sample_day 13 15 SGT_utcoffset) \<and>
   dt_sub (combine sample_day 12 45 SGT_utcoffset) (combine sample_day 12 45 (hours 8))
     = hours 1 + minutes 5 \<and>
   dt_sub (combine sample_day 13 15 SGT_utcoffset) (combine sample_day 13 15 (hours 8))
     = hours 1 + minutes 5"
proof -
  have m: "(13500, combine sample_day 12 45 (hours 8), combine sample_day 13 15 (hours 8))
     \<in> set (best_slots [] 30 10 (combine sample_day 8 0 (hours 8)) (combine sample_day 8 0 (hours 8)))"
    by code_simp
  have f: "format_slot (13500, combine sample_day 12 45 (hours 8), combine sample_day 13 15 (hours 8))
     = ''2024-01-01: 12:45-13:15''"
    by code_simp
  have p: "parse_selected_time SGT_utcoffset ''2024-01-01: 12:45-13:15''
     = Inr (combine sample_day 12 45 SGT_utcoffset, combine sample_day 13 15 SGT_utcoffset)"
    by code_simp
  have d: "dt_sub (combine sample_day 12 45 SGT_utcoffset) (combine sample_day 12 45 (hours 8))
     = hours 1 + minutes 5"
    "dt_sub (combine sample_day 13 15 SGT_utcoffset) (combine sample_day 13 15 (hours 8))
     = hours 1 + minutes 5"
    by code_simp+
  show ?thesis using m f p d by blast
qed

section \<open>The duration is not validated\<close>

lemma load_all_ok:
  "(\<forall>c \<in> set cs. \<exists>evs. Calendar c = Inr evs) \<Longrightarrow> \<exists>evs. load_all Calendar cs = Inr evs"
  by (induction cs) auto





section \<open>The scheduling days\<close>

lemma weekday_range: "0 \<le> weekday d \<and> weekday d \<le> 6"
  by (simp add: weekday_def)

lemma weekday_monday: "weekday (d - weekday d) = 0"
  by (simp add: weekday_def) presburger

lemma infer_working_week_props:
  assumes "infer_working_week all_events clock = (monday, friday)"
  shows "weekday monday = 0" and "friday = monday + 4"
    and "all_events = [] \<Longrightarrow> monday \<le> dt_date clock \<and> dt_date clock \<le> monday + 6"
    and "all_events \<noteq> [] \<Longrightarrow>
           monday \<le> Min (set (map (\<lambda>event. dt_date (ev_begin event)) all_events)) \<and>
           Min (set (map (\<lambda>event. dt_date (ev_begin event)) all_events)) \<le> monday + 6"
proof -
  show "weekday monday = 0"
    using assms weekday_monday by (cases all_events) (auto simp: Let_def)
  show "friday = monday + 4"
    using assms by (cases all_events) (auto simp: Let_def)
  show "monday \<le> dt_date clock \<and> dt_date clock \<le> monday + 6" if "all_events = []"
    using assms that weekday_range [of "dt_date clock"] by (auto simp: Let_def)
  show "monday \<le> Min (set (map (\<lambda>event. dt_date (ev_begin event)) all_events)) \<and>
        Min (set (map (\<lambda>event. dt_date (ev_begin event)) all_events)) \<le> monday + 6"
    if ne: "all_events \<noteq> []"
  proof -
    obtain e es where ev: "all_events = e # es" using ne by (cases all_events) auto
    let ?m = "fold min (map (\<lambda>event. dt_date (ev_begin event)) es) (dt_date (ev_begin e))"
    have m: "Min (set (map (\<lambda>event. dt_date (ev_begin event)) all_events)) = ?m"
      unfolding ev list.map by (rule Min.set_eq_fold)
    have "monday = ?m - weekday ?m" using assms by (simp add: ev Let_def)
    then show ?thesis using weekday_range [of ?m] unfolding m by linarith
  qed
qed

text \<open>
  C6. Let Monday to Friday be the week that \<open>infer_working_week\<close> infers: the
  week of the earliest event date, or of the clock reading when the pool is
  empty. When the date of the reference instant lies in that week,
  \<open>get_scheduling_days\<close> returns the consecutive days from that date to the
  Friday; otherwise it returns the five days from Monday to Friday. On the
  Thursday of the week the result is Thursday and Friday.
\<close>

theorem scheduling_days:
  assumes "infer_working_week all_events clock = (monday, friday)"
    and "today = dt_date current_dt"
  shows "weekday monday = 0 \<and> friday = monday + 4 \<and>
         (all_events = [] \<longrightarrow> monday \<le> dt_date clock \<and> dt_date clock \<le> monday + 6) \<and>
         (all_events \<noteq> [] \<longrightarrow>
            monday \<le> Min (set (map (\<lambda>event. dt_date (ev_begin event)) all_events)) \<and>
            Min (set (map (\<lambda>event. dt_date (ev_begin event)) all_events)) \<le> monday + 6) \<and>
         (monday \<le> today \<and> today \<le> friday \<longrightarrow>
            get_scheduling_days all_events current_dt clock = [today .. friday]) \<and>
         (\<not> (monday \<le> today \<and> today \<le> friday) \<longrightarrow>
            get_scheduling_days all_events current_dt clock
              = [monday, monday + 1, monday + 2, monday + 3, monday + 4]) \<and>
         (today = monday + 3 \<longrightarrow>
            get_scheduling_days all_events current_dt clock = [monday + 3, monday + 4])"
proof -
  note w = infer_working_week_props [OF assms(1)]
  have a: "get_scheduling_days all_events current_dt clock = [today .. friday]"
    if "monday \<le> today \<and> today \<le> friday"
    using that assms map_add_upto [of today "friday - today"]
    by (simp add: get_scheduling_days_def Let_def)
  have b: "get_scheduling_days all_events current_dt clock
      = [monday, monday + 1, monday + 2, monday + 3, monday + 4]"
    if "\<not> (monday \<le> today \<and> today \<le> friday)"
    using that assms map_add_upto [of monday 4]
    by (auto simp: get_scheduling_days_def Let_def upto_rec1)
  have c: "[monday + 3 .. monday + 4] = [monday + 3, monday + 4]"
    by (simp add: upto_rec1)
  show ?thesis using w a b c by auto
qed

theorem scheduling_days_witness:
  "infer_working_week sample_pool sample_thursday = (sample_day, sample_day + 4) \<and>
   weekday sample_day = 0 \<and>
   dt_date sample_thursday = sample_day + 3 \<and>
   get_scheduling_days sample_pool sample_thursday sample_thursday
     = [sample_day + 3, sample_day + 4]"
proof -
  have h: "infer_working_week sample_pool sample_thursday = (sample_day, sample_day + 4)"
    by code_simp
  have t: "dt_date sample_thursday = sample_day + 3"
    by code_simp
  show ?thesis
    using h t scheduling_days [OF h refl, of sample_thursday] by (simp add: upto_rec1)
qed


section \<open>Rounding the start to five minutes\<close>

text \<open>
  What the rounding does: the test \<^verbatim>\<open>minute % 5 >= 2.5\<close> on the integer minute
  field holds from 3 on, the rounded minute is a multiple of five, and seconds
  and microseconds of the result are zero.
\<close>

lemma half_five_le: "(5 :: rat) / 2 \<le> of_int k \<longleftrightarrow> 3 \<le> k"
proof -
  have "(5 :: rat) / 2 \<le> of_int k \<longleftrightarrow> (5 :: rat) \<le> of_int (2 * k)"
    by (simp add: field_simps)
  also have "\<dots> \<longleftrightarrow> 5 \<le> 2 * k"
    using of_int_le_iff [of 5 "2 * k", where ?'a = rat] by simp
  also have "\<dots> \<longleftrightarrow> 3 \<le> k" by linarith
  finally show ?thesis .
qed

lemma round_minute_eq: "round_minute m = (if 3 \<le> m mod 5 then (m div 5) * 5 + 5 else (m div 5) * 5)"
  by (simp add: round_minute_def Let_def half_five_le)

lemma round_minute_multiple: "round_minute m mod 5 = 0"
  by (simp add: round_minute_eq)

lemma round_minute_range:
  assumes "0 \<le> m" "m \<le> 59"
  shows "0 \<le> round_minute m" "round_minute m \<le> 60"
  using assms unfolding round_minute_eq by (simp_all split: if_splits) linarith+

lemma dt_minute_replace_minute:
  assumes "0 \<le> m" "m < 60"
  shows "dt_minute (replace_minute x m) = m"
proof -
  have r: "0 \<le> (0::int)" "(0::int) < 60000000" by simp_all
  have "naive x - naive x mod us_per_hour = 3600000000 * (naive x div 3600000000)"
    using minus_mod_eq_mult_div [of "naive x" us_per_hour] by (simp add: us_per_hour_def)
  then have "naive (replace_minute x m)
      = (60 * (naive x div 3600000000) + m) * 60000000 + 0"
    by (simp add: replace_minute_def minutes_def us_per_minute_def algebra_simps)
  then have "naive (replace_minute x m) div 60000000 = 60 * (naive x div 3600000000) + m"
    using div_mod_decomp(1) [OF r, of "60 * (naive x div 3600000000) + m"] by simp
  moreover have "(naive x div 3600000000 * 60 + m) mod 60 = m"
    by (rule div_mod_decomp(2) [OF assms])
  ultimately show ?thesis
    by (simp add: dt_minute_def us_per_minute_def mult.commute)
qed

lemma round_start_minute:
  "dt_minute (round_start x) = (if 60 \<le> round_minute (dt_minute x) then 0
                                 else round_minute (dt_minute x))"
proof -
  have m: "0 \<le> dt_minute x" "dt_minute x \<le> 59" by (simp_all add: dt_minute_def)
  note rr = round_minute_range [OF m]
  show ?thesis
  proof (cases "60 \<le> round_minute (dt_minute x)")
    case True
    then show ?thesis
      using dt_minute_replace_minute [of 0 "dt_add x (hours 1)"]
      by (simp add: round_start_def)
  next
    case False
    then show ?thesis
      using dt_minute_replace_minute [of "round_minute (dt_minute x)" x] rr
      by (simp add: round_start_def)
  qed
qed

lemma round_start_fields:
  "dt_minute (round_start x) mod 5 = 0 \<and> dt_second (round_start x) = 0
     \<and> dt_microsecond (round_start x) = 0"
proof -
  have a: "naive (round_start x) mod 60000000 = 0"
    using naive_round_start_aligned [of x] by (simp add: us_per_minute_def)
  then obtain k where k: "naive (round_start x) = 60000000 * k" by (auto simp: mod_eq_0_iff_dvd)
  have "dt_second (round_start x) = 0" "dt_microsecond (round_start x) = 0"
    by (simp_all add: dt_second_def dt_microsecond_def k)
  then show ?thesis
    using round_minute_multiple [of "dt_minute x"] by (simp add: round_start_minute)
qed

text \<open>
  C7 at two inputs. A free interval from 09:00 to 09:35 and a meeting of 30
  minutes centre the start at 09:02:30, exactly two and a half minutes past
  09:00; the candidate returned starts at 09:00, not at 09:05, although the
  meeting from 09:05 to 09:35 fits the interval. With the interval ending at
  09:35:58 the centred start is 09:02:59, nearer to 09:05, and the candidate
  still starts at 09:00: only the minute field, here 2, decides.
\<close>

theorem rounding_ignores_seconds:
  "dt_add (combine sample_day 9 0 0) (td_half (minutes 5))
     = dt_add (combine sample_day 9 2 0) 30000000 \<and>
   round_start (dt_add (combine sample_day 9 2 0) 30000000) = combine sample_day 9 0 0 \<and>
   candidate_from_interval (combine sample_day 9 0 0, combine sample_day 9 35 0) (minutes 30)
     = Some (150, combine sample_day 9 0 0, combine sample_day 9 30 0) \<and>
   round_start (dt_add (combine sample_day 9 2 0) 59000000) = combine sample_day 9 0 0 \<and>
   candidate_from_interval
       (combine sample_day 9 0 0, dt_add (combine sample_day 9 35 0) 58000000) (minutes 30)
     = Some (179, combine sample_day 9 0 0, combine sample_day 9 30 0)"
  by code_simp

section \<open>Scenario A: two empty calendars\<close>

lemma events_for_day_Nil: "events_for_day [] day tz = []"
  by (simp add: events_for_day_def List.map_filter_simps)

lemma free_before_now_Nil: "free_before_now [] day tz = [(work_start day tz, work_end day tz)]"
  by (simp add: free_before_now_def events_for_day_Nil)

lemma round_minute_45: "round_minute 45 = 45"
  by (simp add: round_minute_def)

lemma combine_eqI: "naive a = naive b \<Longrightarrow> utcoffset a = utcoffset b \<Longrightarrow> (a::datetime) = b"
  by simp

lemma round_start_1245: "round_start (combine day 12 45 tz) = combine day 12 45 tz"
proof -
  have "dt_minute (combine day 12 45 tz) = 45"
    by (rule combine_fields) simp_all
  moreover have "naive (combine day 12 45 tz) mod us_per_hour = minutes 45"
    by (rule combine_fields) simp_all
  ultimately show ?thesis
    by (simp add: round_start_def round_minute_45 replace_minute_def)
qed

lemma centre_of_window:
  "candidate_from_interval (work_start day tz, work_end day tz) (minutes 30)
     = Some (13500, combine day 12 45 tz, combine day 13 15 tz)"
proof -
  have a: "dt_sub (work_end day tz) (work_start day tz) = 28800000000"
    by (simp add: dt_sub_def work_start_def work_end_def combine_def utc_def hours_def
          minutes_def us_per_hour_def)
  have b: "td_half 27000000000 = 13500000000"
    by (simp add: td_half_def)
  have c: "dt_add (work_start day tz) 13500000000 = combine day 12 45 tz"
    by (simp add: dt_add_def work_start_def combine_def hours_def minutes_def us_per_hour_def
          us_per_minute_def)
  have d: "dt_add (combine day 12 45 tz) (minutes 30) = combine day 13 15 tz"
    by (simp add: dt_add_def combine_def hours_def minutes_def us_per_hour_def us_per_minute_def)
  have e: "\<not> dt_lt (combine day 12 45 tz) (work_start day tz)"
    "\<not> dt_lt (work_end day tz) (combine day 13 15 tz)"
    by (simp_all add: dt_lt_def work_start_def work_end_def combine_def utc_def hours_def
          minutes_def us_per_hour_def us_per_minute_def)
  have f: "\<not> (28800000000::int) < minutes 30" "(28800000000 - minutes 30) = 27000000000"
    by (simp_all add: minutes_def us_per_minute_def)
  show ?thesis
    unfolding candidate_from_interval_def Let_def fst_conv snd_conv a
    by (simp add: b c d e f round_start_1245)
qed

lemma free_today_Nil:
  "free_intervals_for_day [] day tz (if day = d then Some (combine d 8 0 tz) else None)
     = [(work_start day tz, work_end day tz)]"
proof -
  have "\<not> dt_lt (work_start d tz) (combine d 8 0 tz)" "dt_lt (work_start d tz) (work_end d tz)"
    by (simp_all add: dt_lt_def work_start_def work_end_def combine_def utc_def hours_def
        minutes_def us_per_hour_def)
  moreover have "dt_date (combine d 8 0 tz) = d" by (rule combine_fields) simp_all
  ultimately show ?thesis
    by (simp add: free_intervals_for_day_def free_before_now_Nil List.map_filter_simps
          clip_now_def)
qed

lemma day_candidates_Nil:
  "day_candidates [] (minutes 30) (combine d 8 0 tz) day
     = [(13500, combine day 12 45 tz, combine day 13 15 tz)]"
proof -
  have "dt_date (combine d 8 0 tz) = d" by (rule combine_fields) simp_all
  then show ?thesis
    using free_today_Nil [of day tz d]
    by (simp add: day_candidates_def combine_def [of d 8 0 tz, THEN arg_cong [of _ _ utcoffset]]
          List.map_filter_simps centre_of_window)
qed

lemma fmt2_values: "fmt2 12 = ''12''" "fmt2 45 = ''45''" "fmt2 13 = ''13''" "fmt2 15 = ''15''"
  by code_simp+

lemma format_centre:
  "format_slot (s, combine day 12 45 tz, combine day 13 15 tz)
     = format_date day @ '': 12:45-13:15''"
proof -
  have "dt_date (combine day 12 45 tz) = day" "dt_hour (combine day 12 45 tz) = 12"
    "dt_minute (combine day 12 45 tz) = 45" "dt_hour (combine day 13 15 tz) = 13"
    "dt_minute (combine day 13 15 tz) = 15"
    by (rule combine_fields; simp)+
  then show ?thesis
    by (simp add: format_slot_def strftime_date_def strftime_hm_def fmt2_values)
qed

text \<open>
  C8, as the code has it. For two calendars without events, a duration of 30
  minutes and the reference instant 08:00 of a Monday, in any time zone,
  \<open>find_best_meeting_slots\<close> returns five descriptors, one for each day from
  that Monday to the Friday, all from 12:45 to 13:15: the meeting centred in the
  window from 09:00 to 17:00 starts at 12:45, a multiple of five minutes that
  rounding leaves alone. The first descriptor is the one of that Monday.
\<close>

theorem empty_calendars_monday:
  assumes "Calendar c1 = Inr []" and "Calendar c2 = Inr []" and "weekday d = 0"
  shows "find_best_meeting_slots Calendar [c1, c2] 30 10 (combine d 8 0 tz) (combine d 8 0 tz)
    = Inr [format_date d @ '': 12:45-13:15'', format_date (d + 1) @ '': 12:45-13:15'',
           format_date (d + 2) @ '': 12:45-13:15'', format_date (d + 3) @ '': 12:45-13:15'',
           format_date (d + 4) @ '': 12:45-13:15'']"
proof -
  have l: "load_all Calendar [c1, c2] = Inr []" using assms by simp
  have dd: "dt_date (combine d 8 0 tz) = d" by (rule combine_fields) simp_all
  have days: "get_scheduling_days [] (combine d 8 0 tz) (combine d 8 0 tz)
      = [d, d + 1, d + 2, d + 3, d + 4]"
    using assms(3) map_add_upto [of d 4] by (simp add: get_scheduling_days_def dd upto_rec1)
  have cs: "candidate_slots [] 30 (combine d 8 0 tz) (combine d 8 0 tz)
      = map (\<lambda>day. (13500, combine day 12 45 tz, combine day 13 15 tz)) [d, d + 1, d + 2, d + 3, d + 4]"
    by (simp add: candidate_slots_def days day_candidates_Nil)
  show ?thesis
    unfolding find_best_meeting_slots_def l
    by (simp add: best_slots_def cs py_take_def format_centre)
qed

theorem empty_calendars_monday_witness:
  "weekday (sample_day + 7) = 0 \<and>
   find_best_meeting_slots (\<lambda>c. Inr []) [''A'', ''B''] 30 10
       (combine (sample_day + 7) 8 0 (hours 8)) (combine (sample_day + 7) 8 0 (hours 8))
     = Inr [''2024-01-08: 12:45-13:15'', ''2024-01-09: 12:45-13:15'',
            ''2024-01-10: 12:45-13:15'', ''2024-01-11: 12:45-13:15'',
            ''2024-01-12: 12:45-13:15'']"
proof -
  have w: "weekday (sample_day + 7) = 0"
    by code_simp
  have f: "format_date (sample_day + 7) = ''2024-01-08''"
    "format_date (sample_day + 7 + 1) = ''2024-01-09''"
    "format_date (sample_day + 7 + 2) = ''2024-01-10''"
    "format_date (sample_day + 7 + 3) = ''2024-01-11''"
    "format_date (sample_day + 7 + 4) = ''2024-01-12''"
    by code_simp+
  show ?thesis
    using w empty_calendars_monday [of "\<lambda>c. Inr []" "''A''" "''B''" "sample_day + 7" "hours 8",
        OF refl refl w]
    by (simp only: f append.simps)
qed

text \<open>
  The descriptor that the scenario names, 12:55 to 13:25, is not returned: on
  Monday 2024-01-01 at 08:00 UTC the result is the five descriptors from 12:45 to
  13:15.
\<close>

theorem scenario_a_counterexample:
  "weekday sample_day = 0 \<and>
   find_best_meeting_slots (\<lambda>c. Inr []) [''A'', ''B''] 30 10
       (combine sample_day 8 0 0) (combine sample_day 8 0 0)
     = Inr [''2024-01-01: 12:45-13:15'', ''2024-01-02: 12:45-13:15'',
            ''2024-01-03: 12:45-13:15'', ''2024-01-04: 12:45-13:15'',
            ''2024-01-05: 12:45-13:15''] \<and>
   \<not> (\<exists>slots. find_best_meeting_slots (\<lambda>c. Inr []) [''A'', ''B''] 30 10
                  (combine sample_day 8 0 0) (combine sample_day 8 0 0) = Inr slots
               \<and> ''2024-01-01: 12:55-13:25'' \<in> set slots)"
proof -
  have r: "find_best_meeting_slots (\<lambda>c. Inr []) [''A'', ''B''] 30 10
       (combine sample_day 8 0 0) (combine sample_day 8 0 0)
     = Inr [''2024-01-01: 12:45-13:15'', ''2024-01-02: 12:45-13:15'',
            ''2024-01-03: 12:45-13:15'', ''2024-01-04: 12:45-13:15'',
            ''2024-01-05: 12:45-13:15'']"
    by code_simp
  have w: "weekday sample_day = 0"
    by code_simp
  show ?thesis
    unfolding r using w by simp
qed


section \<open>Events that touch the working window\<close>

lemma clip_event_touching:
  assumes "utc (ev_end ev) = utc (work_start day tz) \<or> utc (ev_begin ev) = utc (work_end day tz)"
  shows "clip_event day tz ev = None"
  using assms by (auto simp: clip_event_def Let_def dt_lt_def utc_astimezone)

text \<open>
  C9. An event that only touches a boundary of the working window, ending at
  09:00 or beginning at 17:00 of the target date, adds nothing: the busy list of
  \<open>events_for_day\<close>, and with it the free list, is the one of the pool without
  the event, wherever the event stands in the pool.
\<close>

theorem boundary_event_ignored:
  assumes "utc (ev_end ev) = utc (work_start day tzinfo) \<or> utc (ev_begin ev) = utc (work_end day tzinfo)"
  shows "events_for_day (xs @ ev # ys) day tzinfo = events_for_day (xs @ ys) day tzinfo \<and>
         free_intervals_for_day (xs @ ev # ys) day tzinfo current_dt
           = free_intervals_for_day (xs @ ys) day tzinfo current_dt"
proof -
  have "List.map_filter (clip_event day tzinfo) (xs @ ev # ys)
      = List.map_filter (clip_event day tzinfo) (xs @ ys)"
    using clip_event_touching [OF assms] by (simp add: List.map_filter_def)
  then have "events_for_day (xs @ ev # ys) day tzinfo = events_for_day (xs @ ys) day tzinfo"
    by (simp add: events_for_day_def)
  then show ?thesis
    by (simp add: free_intervals_for_day_def free_before_now_def)
qed

theorem boundary_event_ignored_witness:
  "utc (ev_end sample_early) = utc (work_start sample_day 0) \<and>
   events_for_day ([] @ sample_early # sample_pool) sample_day 0
     = events_for_day ([] @ sample_pool) sample_day 0 \<and>
   free_intervals_for_day ([] @ sample_early # sample_pool) sample_day 0 None
     = free_intervals_for_day ([] @ sample_pool) sample_day 0 None"
proof -
  have h: "utc (ev_end sample_early) = utc (work_start sample_day 0)
      \<or> utc (ev_begin sample_early) = utc (work_end sample_day 0)"
    by code_simp
  have e: "utc (ev_end sample_early) = utc (work_start sample_day 0)"
    by code_simp
  show ?thesis
    using e boundary_event_ignored [OF h, of "[]" sample_pool None] by simp
qed


section \<open>Parsing performs no ordering check\<close>

text \<open>
  C10. \<open>parse_selected_time\<close> does not compare the two times. For every
  descriptor of the shape "YYYY-MM-DD: HH:MM-HH:MM" (a calendar date of the years
  1 to 9999, hours up to 23, minutes up to 59, all zero-padded) it returns the
  pair of instants read from it and raises no error, whatever the order of the
  two times: the end lies \<open>(h2 - h1)\<close> hours and \<open>(m2 - m1)\<close> minutes after the
  start, which is zero or negative for an empty or inverted range.
\<close>

theorem parse_selected_time_unordered:
  assumes "1 \<le> y" "y \<le> 9999" "1 \<le> mo" "mo \<le> 12" "1 \<le> d" "d \<le> days_in_month y mo"
    and "0 \<le> h1" "h1 \<le> 23" "0 \<le> m1" "m1 \<le> 59"
    and "0 \<le> h2" "h2 \<le> 23" "0 \<le> m2" "m2 \<le> 59"
  shows "parse_selected_time SGT
           (fmt4 y @ ''-'' @ fmt2 mo @ ''-'' @ fmt2 d @ '': ''
              @ fmt2 h1 @ '':'' @ fmt2 m1 @ ''-'' @ fmt2 h2 @ '':'' @ fmt2 m2)
         = Inr (mk_datetime (y, mo, d, h1, m1) SGT, mk_datetime (y, mo, d, h2, m2) SGT) \<and>
         dt_sub (mk_datetime (y, mo, d, h2, m2) SGT) (mk_datetime (y, mo, d, h1, m1) SGT)
         = hours (h2 - h1) + minutes (m2 - m1)"
proof -
  have "dt_sub (mk_datetime (y, mo, d, h2, m2) SGT) (mk_datetime (y, mo, d, h1, m1) SGT)
         = hours (h2 - h1) + minutes (m2 - m1)"
    by (simp add: dt_sub_def utc_def mk_datetime_def hours_def minutes_def algebra_simps)
  then show ?thesis
    using parse_formatted [OF assms, of SGT] by simp
qed

theorem parse_selected_time_unordered_witness:
  "parse_selected_time (hours 8) ''2024-01-01: 13:45-13:15''
     = Inr (mk_datetime (2024, 1, 1, 13, 45) (hours 8), mk_datetime (2024, 1, 1, 13, 15) (hours 8)) \<and>
   dt_sub (mk_datetime (2024, 1, 1, 13, 15) (hours 8)) (mk_datetime (2024, 1, 1, 13, 45) (hours 8))
     = minutes (- 30)"
proof -
  have f: "fmt4 2024 = ''2024''" "fmt2 1 = ''01''" "fmt2 13 = ''13''" "fmt2 45 = ''45''"
    "fmt2 15 = ''15''"
    by code_simp+
  have d: "(1::int) \<le> days_in_month 2024 1"
    by code_simp
  have h: "hours (13 - 13) + minutes (15 - 45) = minutes (- 30)"
    by (simp add: hours_def)
  show ?thesis
    using parse_selected_time_unordered [of 2024 1 1 13 45 13 15 "hours 8"] d
    by (simp add: f h hours_def)
qed

end
